theory Spec2Isabelle
  imports Complex_Main "HOL-Library.Log_Nat"
begin

section \<open>Data model of \<^verbatim>\<open>src/app/page.tsx\<close>\<close>

text \<open>
  \<^verbatim>\<open>type CellValue = "X" | "O" | null\<close>. The fourth constructor is the value JavaScript
  yields when an array is read outside its bounds and the content of the holes an
  assignment past the end creates; it is not a member of the declared union and no cell
  of a board built by the page holds it.
\<close>

datatype CellValue = MarkX | MarkO | Null | Undefined

type_synonym Board = "CellValue list"

datatype GameStatus = Playing | Won | Draw

text \<open>JavaScript truthiness of a cell: the two non-empty strings are truthy,
  \<^verbatim>\<open>null\<close> and \<^verbatim>\<open>undefined\<close> are falsy.\<close>

fun truthy :: "CellValue \<Rightarrow> bool" where
  "truthy MarkX = True"
| "truthy MarkO = True"
| "truthy Null = False"
| "truthy Undefined = False"

text \<open>\<^verbatim>\<open>board[i]\<close>: a read outside the array gives \<^verbatim>\<open>undefined\<close>.\<close>

definition cell_at :: "Board \<Rightarrow> int \<Rightarrow> CellValue" where
  "cell_at board i = (if 0 \<le> i \<and> i < int (length board) then board ! nat i else Undefined)"

text \<open>\<^verbatim>\<open>board[i] = v\<close> on a copy of the array: inside the bounds the element is replaced;
  past the end the array grows and the skipped positions read as \<^verbatim>\<open>undefined\<close>; a negative
  index names a property, not an element, and leaves every element as it was.\<close>

definition assign_at :: "Board \<Rightarrow> int \<Rightarrow> CellValue \<Rightarrow> Board" where
  "assign_at board i v =
     (if i < 0 then board
      else if i < int (length board) then board[nat i := v]
      else board @ replicate (nat i - length board) Undefined @ [v])"

text \<open>The same assignment with an index that may be \<^verbatim>\<open>undefined\<close> (\<open>None\<close>):
  \<^verbatim>\<open>board[undefined] = v\<close> creates a property of that name and changes no element.\<close>

definition assign_at_number :: "Board \<Rightarrow> int option \<Rightarrow> CellValue \<Rightarrow> Board" where
  "assign_at_number board i v = (case i of Some k \<Rightarrow> assign_at board k v | None \<Rightarrow> board)"

text \<open>\<^verbatim>\<open>moves[i]\<close> on an array of numbers; \<open>None\<close> is \<^verbatim>\<open>undefined\<close>.\<close>

definition number_at :: "int list \<Rightarrow> int \<Rightarrow> int option" where
  "number_at moves i = (if 0 \<le> i \<and> i < int (length moves) then Some (moves ! nat i) else None)"

text \<open>
  The score counters are JavaScript numbers, that is IEEE doubles. They start at zero and
  are only ever added one to or set to zero, so they hold integers, and the model keeps
  the integer-valued doubles as \<open>int\<close>. The sum of two doubles is the exact sum rounded to
  the nearest double, a tie going to the even significand; on an integer that is
  \<open>round_to_double\<close>: an integer of at most 53 bits is a double, a longer one is rounded
  at its 53rd bit. So \<^verbatim>\<open>n + 1\<close> is exact while the magnitudes stay within 2^53 and is
  absorbed at 2^53.
\<close>

definition round_to_double :: "int \<Rightarrow> int" where
  "round_to_double x =
     (let a = \<bar>x\<bar> in
      if a < 2 ^ 53 then x
      else
        let k = nat (bitlen a - 53);
            q = a div 2 ^ k;
            r = a mod 2 ^ k;
            h = 2 ^ (k - 1);
            q' = (if h < r \<or> (r = h \<and> odd q) then q + 1 else q)
        in sgn x * (q' * 2 ^ k))"

definition number_plus_one :: "int \<Rightarrow> int" where
  "number_plus_one n = round_to_double (n + 1)"

section \<open>The engine functions\<close>

definition WINNING_COMBINATIONS :: "(int \<times> int \<times> int) list" where
  "WINNING_COMBINATIONS =
     [(0, 1, 2), (3, 4, 5), (6, 7, 8),
      (0, 3, 6), (1, 4, 7), (2, 5, 8),
      (0, 4, 8), (2, 4, 6)]"

text \<open>The \<^verbatim>\<open>for (const combination of ...)\<close> loop of \<^verbatim>\<open>checkWinner\<close>, with its early return.\<close>

fun checkWinner_loop :: "(int \<times> int \<times> int) list \<Rightarrow> Board \<Rightarrow> CellValue" where
  "checkWinner_loop [] board = Null"
| "checkWinner_loop ((a, b, c) # rest) board =
     (if truthy (cell_at board a) \<and> cell_at board a = cell_at board b
         \<and> cell_at board a = cell_at board c
      then cell_at board a
      else checkWinner_loop rest board)"

definition checkWinner :: "Board \<Rightarrow> CellValue" where
  "checkWinner board = checkWinner_loop WINNING_COMBINATIONS board"

definition checkDraw :: "Board \<Rightarrow> bool" where
  "checkDraw board = list_all (\<lambda>cell. cell \<noteq> Null) board"

definition getAvailableMoves :: "Board \<Rightarrow> int list" where
  "getAvailableMoves board =
     filter (\<lambda>index. index \<noteq> - 1)
       (map (\<lambda>(index, cell). if cell = Null then int index else - 1) (enumerate 0 board))"

text \<open>The two \<^verbatim>\<open>for (const move of availableMoves)\<close> loops of \<^verbatim>\<open>getComputerMove\<close> differ
  only in the mark they try; \<open>Some move\<close> is the early \<^verbatim>\<open>return move\<close>, \<open>None\<close> is
  falling out of the loop.\<close>

fun tryMoves :: "CellValue \<Rightarrow> Board \<Rightarrow> int list \<Rightarrow> int option" where
  "tryMoves mark board [] = None"
| "tryMoves mark board (move # rest) =
     (let testBoard = assign_at board move mark
      in if checkWinner testBoard = mark then Some move else tryMoves mark board rest)"

text \<open>\<^verbatim>\<open>getComputerMove\<close>. The parameter \<open>random\<close> is the value of the one call of
  \<^verbatim>\<open>Math.random()\<close> a run can make, taken as a real number; the result \<open>None\<close> is the
  JavaScript value \<^verbatim>\<open>undefined\<close>, returned normally. The function has no \<^verbatim>\<open>throw\<close>.\<close>

definition getComputerMove :: "real \<Rightarrow> Board \<Rightarrow> int option" where
  "getComputerMove random board =
     (let availableMoves = getAvailableMoves board in
      case tryMoves MarkO board availableMoves of
        Some move \<Rightarrow> Some move
      | None \<Rightarrow>
     (case tryMoves MarkX board availableMoves of
        Some move \<Rightarrow> Some move
      | None \<Rightarrow>
      if 4 \<in> set availableMoves then Some 4
      else
        let corners = [0, 2, 6, 8];
            availableCorners = filter (\<lambda>corner. corner \<in> set availableMoves) corners
        in if length availableCorners > 0
           then number_at availableCorners \<lfloor>random * real (length availableCorners)\<rfloor>
           else number_at availableMoves \<lfloor>random * real (length availableMoves)\<rfloor>))"


section \<open>The three pure functions over a store of arrays\<close>

text \<open>
  To say that a call leaves the array it is given as it was, the arrays are put in a
  store: an address is a position in the store, an allocation appends, and a call takes
  the address of the board and the store and returns its result with the store it leaves
  behind. \<^verbatim>\<open>checkWinner\<close> and \<^verbatim>\<open>checkDraw\<close> only read; \<^verbatim>\<open>getAvailableMoves\<close> allocates the
  array \<^verbatim>\<open>map\<close> builds and the array \<^verbatim>\<open>filter\<close> builds and returns the address of the
  second.
\<close>

datatype JsArray = Cells "CellValue list" | Numbers "int list"

type_synonym Store = "JsArray list"

definition cells_of :: "Store \<Rightarrow> nat \<Rightarrow> CellValue list" where
  "cells_of store p =
     (if p < length store then (case store ! p of Cells cells \<Rightarrow> cells | Numbers _ \<Rightarrow> []) else [])"

definition numbers_of :: "Store \<Rightarrow> nat \<Rightarrow> int list" where
  "numbers_of store p =
     (if p < length store then (case store ! p of Numbers ns \<Rightarrow> ns | Cells _ \<Rightarrow> []) else [])"

definition read_cell :: "Store \<Rightarrow> nat \<Rightarrow> int \<Rightarrow> CellValue" where
  "read_cell store p i = cell_at (cells_of store p) i"

definition allocate :: "JsArray \<Rightarrow> Store \<Rightarrow> nat \<times> Store" where
  "allocate array store = (length store, store @ [array])"

fun checkWinner_store_loop ::
  "(int \<times> int \<times> int) list \<Rightarrow> nat \<Rightarrow> Store \<Rightarrow> CellValue \<times> Store" where
  "checkWinner_store_loop [] p store = (Null, store)"
| "checkWinner_store_loop ((a, b, c) # rest) p store =
     (if truthy (read_cell store p a) \<and> read_cell store p a = read_cell store p b
         \<and> read_cell store p a = read_cell store p c
      then (read_cell store p a, store)
      else checkWinner_store_loop rest p store)"

definition checkWinner_store :: "nat \<Rightarrow> Store \<Rightarrow> CellValue \<times> Store" where
  "checkWinner_store p store = checkWinner_store_loop WINNING_COMBINATIONS p store"

definition checkDraw_store :: "nat \<Rightarrow> Store \<Rightarrow> bool \<times> Store" where
  "checkDraw_store p store = (list_all (\<lambda>cell. cell \<noteq> Null) (cells_of store p), store)"

definition getAvailableMoves_store :: "nat \<Rightarrow> Store \<Rightarrow> nat \<times> Store" where
  "getAvailableMoves_store p store =
     (let (mapped, store1) =
            allocate (Numbers (map (\<lambda>(index, cell). if cell = Null then int index else - 1)
                                 (enumerate 0 (cells_of store p)))) store;
          (filtered, store2) =
            allocate (Numbers (filter (\<lambda>index. index \<noteq> - 1) (numbers_of store1 mapped))) store1
      in (filtered, store2))"

section \<open>The page state and its transitions\<close>

text \<open>The five \<^verbatim>\<open>useState\<close> cells of the component. The counters are integer-valued
  JavaScript numbers; \<^verbatim>\<open>prev.player + 1\<close> is \<open>number_plus_one\<close>.\<close>

record Score =
  player :: int
  computer :: int
  draws :: int

record State =
  board :: Board
  isPlayerTurn :: bool
  gameStatus :: GameStatus
  winner :: "string option"
  score :: Score

definition initialState :: State where
  "initialState =
     \<lparr>board = replicate 9 Null, isPlayerTurn = True, gameStatus = Playing, winner = None,
      score = \<lparr>player = 0, computer = 0, draws = 0\<rparr>\<rparr>"

text \<open>\<^verbatim>\<open>handleCellClick\<close>: the state setters called in one run of the handler are applied
  together, so a run is one transition. The local \<^verbatim>\<open>winner\<close> of the source is
  \<open>lineWinner\<close> here, the state cell keeps the name.\<close>

definition handleCellClick :: "int \<Rightarrow> State \<Rightarrow> State" where
  "handleCellClick index s =
     (if truthy (cell_at (board s) index) \<or> gameStatus s \<noteq> Playing \<or> \<not> isPlayerTurn s then s
      else
        let newBoard = assign_at (board s) index MarkX;
            lineWinner = checkWinner newBoard
        in if truthy lineWinner
           then s\<lparr>board := newBoard, gameStatus := Won, winner := Some ''Player'',
                  score := (score s)\<lparr>player := number_plus_one (player (score s))\<rparr>\<rparr>
           else if checkDraw newBoard
           then s\<lparr>board := newBoard, gameStatus := Draw,
                  score := (score s)\<lparr>draws := number_plus_one (draws (score s))\<rparr>\<rparr>
           else s\<lparr>board := newBoard, isPlayerTurn := False\<rparr>)"

text \<open>The body of the timer callback of the computer-move effect, under the guard of the
  effect.\<close>

definition computerMoveEffect :: "real \<Rightarrow> State \<Rightarrow> State" where
  "computerMoveEffect random s =
     (if \<not> isPlayerTurn s \<and> gameStatus s = Playing
      then
        let computerMove = getComputerMove random (board s);
            newBoard = assign_at_number (board s) computerMove MarkO;
            lineWinner = checkWinner newBoard
        in if truthy lineWinner
           then s\<lparr>board := newBoard, gameStatus := Won, winner := Some ''Computer'',
                  score := (score s)\<lparr>computer := number_plus_one (computer (score s))\<rparr>\<rparr>
           else if checkDraw newBoard
           then s\<lparr>board := newBoard, gameStatus := Draw,
                  score := (score s)\<lparr>draws := number_plus_one (draws (score s))\<rparr>\<rparr>
           else s\<lparr>board := newBoard, isPlayerTurn := True\<rparr>
      else s)"

definition resetGame :: "State \<Rightarrow> State" where
  "resetGame s = s\<lparr>board := replicate 9 Null, isPlayerTurn := True, gameStatus := Playing,
                   winner := None\<rparr>"

definition resetScore :: "State \<Rightarrow> State" where
  "resetScore s = s\<lparr>score := \<lparr>player = 0, computer = 0, draws = 0\<rparr>\<rparr>"

text \<open>Everything that can change the state: a click on a cell, the timer of the effect
  firing (with the value \<^verbatim>\<open>Math.random()\<close> would give), and the two buttons.\<close>

datatype Event = CellClick int | ComputerTimer real | NewGame | ResetScoreButton

fun step :: "Event \<Rightarrow> State \<Rightarrow> State" where
  "step (CellClick index) s = handleCellClick index s"
| "step (ComputerTimer random) s = computerMoveEffect random s"
| "step NewGame s = resetGame s"
| "step ResetScoreButton s = resetScore s"

text \<open>A run of the page from a state, one event after the other. The events the page
  can produce: the cells it renders pass the indices 0 to 8 to \<^verbatim>\<open>handleCellClick\<close>, and
  \<^verbatim>\<open>Math.random()\<close> gives a value in [0,1).\<close>

fun run :: "Event list \<Rightarrow> State \<Rightarrow> State" where
  "run [] s = s"
| "run (e # es) s = run es (step e s)"

fun valid_event :: "Event \<Rightarrow> bool" where
  "valid_event (CellClick index) = (0 \<le> index \<and> index < 9)"
| "valid_event (ComputerTimer random) = (0 \<le> random \<and> random < 1)"
| "valid_event NewGame = True"
| "valid_event ResetScoreButton = True"

definition count_mark :: "CellValue \<Rightarrow> Board \<Rightarrow> nat" where
  "count_mark mark cells = length (filter (\<lambda>cell. cell = mark) cells)"

section \<open>The words of the specification\<close>

text \<open>A line holds a mark when its three cells are that mark; it is complete when it holds
  one of the two marks. A move completes a line for a mark when, on the board with the
  move filled with the mark, some line holds the mark.\<close>

fun line_has :: "Board \<Rightarrow> CellValue \<Rightarrow> int \<times> int \<times> int \<Rightarrow> bool" where
  "line_has cells mark (a, b, c) =
     (cell_at cells a = mark \<and> cell_at cells b = mark \<and> cell_at cells c = mark)"

definition line_complete :: "Board \<Rightarrow> int \<times> int \<times> int \<Rightarrow> bool" where
  "line_complete cells line = (line_has cells MarkX line \<or> line_has cells MarkO line)"

definition completes_line :: "Board \<Rightarrow> CellValue \<Rightarrow> int \<Rightarrow> bool" where
  "completes_line cells mark move =
     list_ex (line_has (assign_at cells move mark) mark) WINNING_COMBINATIONS"

text \<open>The test the two loops of \<^verbatim>\<open>getComputerMove\<close> apply to a move, from the source.\<close>

definition move_wins :: "Board \<Rightarrow> CellValue \<Rightarrow> int \<Rightarrow> bool" where
  "move_wins cells mark move = (checkWinner (assign_at cells move mark) = mark)"

text \<open>\<open>least_move P moves m\<close>: \<open>m\<close> is the smallest of the moves that satisfy \<open>P\<close>.\<close>

definition least_move :: "(int \<Rightarrow> bool) \<Rightarrow> int list \<Rightarrow> int \<Rightarrow> bool" where
  "least_move P moves m = (m \<in> set moves \<and> P m \<and> list_all (\<lambda>m'. P m' \<longrightarrow> m \<le> m') moves)"

text \<open>The priority cascade of the specification, over a notion \<open>wins\<close> of a move that wins
  for the opponent and a notion \<open>blocks\<close> of a move that would win for the player: the
  result is an index, and it is the least winning move; failing that the least blocking
  move; failing that 4 if that cell is empty; failing that an empty corner; failing that
  an available move.\<close>

definition follows_cascade ::
  "(int \<Rightarrow> bool) \<Rightarrow> (int \<Rightarrow> bool) \<Rightarrow> Board \<Rightarrow> int option \<Rightarrow> bool" where
  "follows_cascade wins blocks cells result =
     (case result of
        None \<Rightarrow> False
      | Some m \<Rightarrow>
          (let moves = getAvailableMoves cells in
           if list_ex wins moves then least_move wins moves m
           else if list_ex blocks moves then least_move blocks moves m
           else if cell_at cells 4 = Null then m = 4
           else if list_ex (\<lambda>corner. cell_at cells corner = Null) [0, 2, 6, 8]
             then m \<in> set [0, 2, 6, 8] \<and> cell_at cells m = Null
           else m \<in> set moves))"

text \<open>The outcome of a board as the specification orders it: the win check first, the
  draw check second.\<close>

definition outcome :: "Board \<Rightarrow> GameStatus" where
  "outcome cells =
     (if truthy (checkWinner cells) then Won else if checkDraw cells then Draw else Playing)"

text \<open>A click is accepted when the guard at the head of \<^verbatim>\<open>handleCellClick\<close> lets it
  through; the timer of the effect runs the computer's move when the guard of the effect
  holds.\<close>

definition click_accepted :: "int \<Rightarrow> State \<Rightarrow> bool" where
  "click_accepted index s =
     (\<not> (truthy (cell_at (board s) index) \<or> gameStatus s \<noteq> Playing \<or> \<not> isPlayerTurn s))"

definition timer_accepted :: "State \<Rightarrow> bool" where
  "timer_accepted s = (\<not> isPlayerTurn s \<and> gameStatus s = Playing)"

text \<open>The counters on which adding one is exact: those from -2^53 up to, but not
  including, 2^53.\<close>

definition exact_counter :: "int \<Rightarrow> bool" where
  "exact_counter n = (- (2 ^ 53) \<le> n \<and> n < 2 ^ 53)"

text \<open>What alternation of turns means for the marks on the board: the player's marks are
  as many as the computer's when the next move is the player's or the computer moved last,
  and one more when the next move is the computer's or the player moved last. While the
  game is on, the indicator says who is next; when it is over, the indicator was left with
  who moved last.\<close>

definition turn_invariant :: "State \<Rightarrow> bool" where
  "turn_invariant s =
     (length (board s) = 9 \<and> Undefined \<notin> set (board s)
      \<and> gameStatus s = outcome (board s)
      \<and> count_mark MarkX (board s)
          = count_mark MarkO (board s)
            + (if isPlayerTurn s = (gameStatus s = Playing) then 0 else 1))"

section \<open>Properties of \<^verbatim>\<open>getAvailableMoves\<close>\<close>

lemma availableMoves_enumerate:
  "filter (\<lambda>index. index \<noteq> - 1)
     (map (\<lambda>(index, cell). if cell = Null then int index else - 1) (enumerate n bd))
   = map int (filter (\<lambda>i. bd ! (i - n) = Null) [n..<n + length bd])"
proof (induction bd arbitrary: n)
  case Nil
  show ?case by simp
next
  case (Cons c cs)
  define js where "js = [Suc n..<Suc n + length cs]"
  have ge: "\<And>i. i \<in> set js \<Longrightarrow> Suc n \<le> i" unfolding js_def set_upt by auto
  have tl: "filter (\<lambda>i. (d # cs) ! (i - n) = Null) js = filter (\<lambda>i. cs ! (i - Suc n) = Null) js" for d
  proof (rule filter_cong)
    fix i assume "i \<in> set js"
    then have "i - n = Suc (i - Suc n)" using ge by fastforce
    then show "((d # cs) ! (i - n) = Null) = (cs ! (i - Suc n) = Null)" by simp
  qed simp
  have up: "[n..<n + length (c # cs)] = n # js"
    by (simp add: upt_rec js_def)
  have "filter (\<lambda>index. index \<noteq> - 1)
          (map (\<lambda>(index, cell). if cell = Null then int index else - 1) (enumerate n (c # cs)))
        = (if c = Null then [int n] else [])
          @ filter (\<lambda>index. index \<noteq> - 1)
              (map (\<lambda>(index, cell). if cell = Null then int index else - 1) (enumerate (Suc n) cs))"
    by simp
  also have "\<dots> = (if c = Null then [int n] else [])
          @ map int (filter (\<lambda>i. cs ! (i - Suc n) = Null) js)"
    by (simp only: Cons.IH js_def)
  also have "\<dots> = map int (filter (\<lambda>i. (c # cs) ! (i - n) = Null) (n # js))"
    by (simp add: tl)
  finally show ?case by (simp only: up)
qed

lemma getAvailableMoves_eq:
  "getAvailableMoves bd = map int (filter (\<lambda>i. bd ! i = Null) [0..<length bd])"
  using availableMoves_enumerate [of 0 bd] by (simp add: getAvailableMoves_def)

lemma set_getAvailableMoves:
  "set (getAvailableMoves bd) = {i. 0 \<le> i \<and> i < int (length bd) \<and> cell_at bd i = Null}"
proof -
  have "set (getAvailableMoves bd) = int ` {i. i < length bd \<and> bd ! i = Null}"
    by (auto simp: getAvailableMoves_eq)
  also have "\<dots> = {i. 0 \<le> i \<and> i < int (length bd) \<and> cell_at bd i = Null}"
  proof (rule set_eqI)
    fix i :: int
    show "i \<in> int ` {i. i < length bd \<and> bd ! i = Null}
          \<longleftrightarrow> i \<in> {i. 0 \<le> i \<and> i < int (length bd) \<and> cell_at bd i = Null}"
    proof
      assume "i \<in> int ` {i. i < length bd \<and> bd ! i = Null}"
      then show "i \<in> {i. 0 \<le> i \<and> i < int (length bd) \<and> cell_at bd i = Null}"
        by (auto simp: cell_at_def)
    next
      assume "i \<in> {i. 0 \<le> i \<and> i < int (length bd) \<and> cell_at bd i = Null}"
      then have "nat i < length bd" "bd ! nat i = Null" "i = int (nat i)"
        by (auto simp: cell_at_def)
      then show "i \<in> int ` {i. i < length bd \<and> bd ! i = Null}" by blast
    qed
  qed
  finally show ?thesis .
qed

lemma sorted_getAvailableMoves: "sorted_wrt (<) (getAvailableMoves bd)"
proof -
  have "sorted_wrt (<) (filter (\<lambda>i. bd ! i = Null) [0..<length bd])"
    by (rule sorted_wrt_filter) simp
  then show ?thesis
    by (simp add: getAvailableMoves_eq sorted_wrt_map)
qed

lemma distinct_getAvailableMoves: "distinct (getAvailableMoves bd)"
  using sorted_getAvailableMoves [of bd] strict_sorted_iff by blast

lemma length_getAvailableMoves:
  "length (getAvailableMoves bd) + length (filter (\<lambda>cell. cell \<noteq> Null) bd) = length bd"
proof -
  have "length (filter (\<lambda>i. bd ! i = Null) [0..<length bd])
        = length (filter (\<lambda>cell. cell = Null) bd)"
  proof -
    have "map ((!) bd) [0..<length bd] = bd" by (rule map_nth)
    then have "filter (\<lambda>cell. cell = Null) bd
               = filter (\<lambda>cell. cell = Null) (map ((!) bd) [0..<length bd])" by simp
    also have "\<dots> = map ((!) bd) (filter (\<lambda>i. bd ! i = Null) [0..<length bd])"
      by (simp add: filter_map o_def)
    finally show ?thesis by (metis length_map)
  qed
  moreover have "length (filter (\<lambda>cell. cell = Null) bd)
                 + length (filter (\<lambda>cell. cell \<noteq> Null) bd) = length bd"
    using sum_length_filter_compl [of "\<lambda>cell. cell = Null" bd] by simp
  ultimately show ?thesis by (simp add: getAvailableMoves_eq)
qed

lemma getAvailableMoves_empty_iff: "getAvailableMoves bd = [] \<longleftrightarrow> checkDraw bd"
proof -
  have "getAvailableMoves bd = [] \<longleftrightarrow> set (getAvailableMoves bd) = {}" by simp
  also have "\<dots> \<longleftrightarrow> (\<forall>i<length bd. bd ! i \<noteq> Null)"
    by (auto simp: getAvailableMoves_eq)
  also have "\<dots> \<longleftrightarrow> checkDraw bd"
    by (simp add: checkDraw_def list_all_length)
  finally show ?thesis .
qed

text \<open>
  Claim C7. On a board of nine cells \<^verbatim>\<open>getAvailableMoves\<close> returns exactly the indices 0 to 8
  whose cell is \<^verbatim>\<open>null\<close>, strictly ascending and without duplicates; its length and the
  number of cells that are not \<^verbatim>\<open>null\<close> add up to 9; and it is empty exactly when
  \<^verbatim>\<open>checkDraw\<close> holds.
\<close>

theorem getAvailableMoves_spec:
  assumes "length bd = 9"
  shows "set (getAvailableMoves bd) = {i. 0 \<le> i \<and> i \<le> 8 \<and> cell_at bd i = Null}
       \<and> sorted_wrt (<) (getAvailableMoves bd)
       \<and> distinct (getAvailableMoves bd)
       \<and> length (getAvailableMoves bd) + length (filter (\<lambda>cell. cell \<noteq> Null) bd) = 9
       \<and> (getAvailableMoves bd = [] \<longleftrightarrow> checkDraw bd)"
proof -
  have "{i. 0 \<le> i \<and> i < int (length bd) \<and> cell_at bd i = Null}
        = {i. 0 \<le> i \<and> i \<le> 8 \<and> cell_at bd i = Null}"
    using assms by auto
  then show ?thesis
    using assms set_getAvailableMoves [of bd] sorted_getAvailableMoves [of bd]
      distinct_getAvailableMoves [of bd] length_getAvailableMoves [of bd]
      getAvailableMoves_empty_iff [of bd]
    by simp
qed

theorem getAvailableMoves_spec_witness:
  "set (getAvailableMoves [MarkX, Null, MarkO, Null, Null, MarkX, Null, Null, Null]) = {1, 3, 4, 6, 7, 8}
   \<and> getAvailableMoves [MarkX, Null, MarkO, Null, Null, MarkX, Null, Null, Null] = [1, 3, 4, 6, 7, 8]
   \<and> length (getAvailableMoves [MarkX, Null, MarkO, Null, Null, MarkX, Null, Null, Null]) + 3 = 9
   \<and> \<not> checkDraw [MarkX, Null, MarkO, Null, Null, MarkX, Null, Null, Null]"
  using getAvailableMoves_spec [of "[MarkX, Null, MarkO, Null, Null, MarkX, Null, Null, Null]"]
  by (simp add: getAvailableMoves_def checkDraw_def)

section \<open>Properties of \<^verbatim>\<open>checkWinner\<close>\<close>

lemma line_test_iff:
  "(truthy (cell_at bd a) \<and> cell_at bd a = cell_at bd b \<and> cell_at bd a = cell_at bd c)
   \<longleftrightarrow> line_complete bd (a, b, c)"
  by (cases "cell_at bd a") (auto simp: line_complete_def)

lemma find_Some_holds: "find P xs = Some x \<Longrightarrow> P x \<and> x \<in> set xs"
  by (induction xs) (auto split: if_splits)

lemma find_None_none: "find P xs = None \<longleftrightarrow> (\<forall>x \<in> set xs. \<not> P x)"
  by (induction xs) auto

lemma checkWinner_loop_Cons:
  "checkWinner_loop ((a, b, c) # rest) bd =
     (if line_complete bd (a, b, c) then cell_at bd a else checkWinner_loop rest bd)"
  by (simp only: checkWinner_loop.simps line_test_iff)

lemma checkWinner_loop_find:
  "checkWinner_loop ls bd =
     (case find (line_complete bd) ls of None \<Rightarrow> Null | Some (a, b, c) \<Rightarrow> cell_at bd a)"
proof (induction ls)
  case Nil
  show ?case by simp
next
  case (Cons l ls)
  obtain a b c where l: "l = (a, b, c)" by (cases l) auto
  show ?case
    unfolding l checkWinner_loop_Cons Cons.IH by simp
qed

lemma checkWinner_find:
  "checkWinner bd =
     (case find (line_complete bd) WINNING_COMBINATIONS of
        None \<Rightarrow> Null | Some (a, b, c) \<Rightarrow> cell_at bd a)"
  by (simp only: checkWinner_def checkWinner_loop_find)

lemma line_complete_first_cell:
  "line_complete bd (a, b, c) \<Longrightarrow> truthy M \<Longrightarrow> cell_at bd a = M \<longleftrightarrow> line_has bd M (a, b, c)"
  by (cases M) (auto simp: line_complete_def)

lemma line_has_complete: "truthy M \<Longrightarrow> line_has bd M line \<Longrightarrow> line_complete bd line"
  by (cases M) (auto simp: line_complete_def)

lemma checkWinner_mark_iff:
  assumes "truthy M"
  shows "checkWinner bd = M
         \<longleftrightarrow> (\<exists>line. find (line_complete bd) WINNING_COMBINATIONS = Some line \<and> line_has bd M line)"
proof (cases "find (line_complete bd) WINNING_COMBINATIONS")
  case None
  have "checkWinner bd = Null" by (simp add: checkWinner_find None)
  then show ?thesis using assms None by auto
next
  case (Some l)
  obtain a b c where l: "l = (a, b, c)" by (cases l) auto
  have "line_complete bd (a, b, c)" using find_Some_holds [OF Some] l by simp
  then have "cell_at bd a = M \<longleftrightarrow> line_has bd M (a, b, c)"
    using assms by (rule line_complete_first_cell)
  moreover have "checkWinner bd = cell_at bd a" by (simp add: checkWinner_find Some l)
  ultimately show ?thesis using Some l by simp
qed

lemma checkWinner_Null_iff:
  "checkWinner bd = Null \<longleftrightarrow> (\<forall>line \<in> set WINNING_COMBINATIONS. \<not> line_complete bd line)"
proof (cases "find (line_complete bd) WINNING_COMBINATIONS")
  case None
  have "checkWinner bd = Null" by (simp add: checkWinner_find None)
  moreover have "\<forall>line \<in> set WINNING_COMBINATIONS. \<not> line_complete bd line"
    using None by (simp only: find_None_none)
  ultimately show ?thesis by simp
next
  case (Some l)
  obtain a b c where l: "l = (a, b, c)" by (cases l) auto
  have c: "line_complete bd (a, b, c)" and m: "(a, b, c) \<in> set WINNING_COMBINATIONS"
    using find_Some_holds [OF Some] l by simp_all
  from c have "cell_at bd a \<noteq> Null" by (auto simp: line_complete_def)
  moreover have "checkWinner bd = cell_at bd a" by (simp add: checkWinner_find Some l)
  ultimately show ?thesis using c m by auto
qed

lemma checkWinner_range: "checkWinner bd = Null \<or> checkWinner bd = MarkX \<or> checkWinner bd = MarkO"
proof (cases "find (line_complete bd) WINNING_COMBINATIONS")
  case None
  then show ?thesis by (simp add: checkWinner_find)
next
  case (Some l)
  obtain a b c where l: "l = (a, b, c)" by (cases l) auto
  have "line_complete bd (a, b, c)" using find_Some_holds [OF Some] l by simp
  then have "cell_at bd a = MarkX \<or> cell_at bd a = MarkO" by (auto simp: line_complete_def)
  moreover have "checkWinner bd = cell_at bd a" by (simp add: checkWinner_find Some l)
  ultimately show ?thesis by simp
qed

lemma checkWinner_single_mark:
  assumes "truthy M"
    and "\<forall>line \<in> set WINNING_COMBINATIONS. line_complete bd line \<longrightarrow> line_has bd M line"
  shows "checkWinner bd = M \<longleftrightarrow> (\<exists>line \<in> set WINNING_COMBINATIONS. line_has bd M line)"
proof
  assume "checkWinner bd = M"
  then obtain line where f: "find (line_complete bd) WINNING_COMBINATIONS = Some line"
    and h: "line_has bd M line"
    using checkWinner_mark_iff [OF assms(1)] by blast
  from find_Some_holds [OF f] h show "\<exists>line \<in> set WINNING_COMBINATIONS. line_has bd M line"
    by blast
next
  assume "\<exists>line \<in> set WINNING_COMBINATIONS. line_has bd M line"
  then obtain l0 where l0: "l0 \<in> set WINNING_COMBINATIONS" "line_has bd M l0" by blast
  then have "line_complete bd l0" using assms(1) line_has_complete by blast
  then have "find (line_complete bd) WINNING_COMBINATIONS \<noteq> None"
    using l0(1) unfolding find_None_none by blast
  then obtain l where l: "find (line_complete bd) WINNING_COMBINATIONS = Some l" by blast
  from find_Some_holds [OF l] have "line_has bd M l" using assms(2) by blast
  then show "checkWinner bd = M" using l checkWinner_mark_iff [OF assms(1)] by blast
qed

text \<open>
  Claim C2, as stated, fails on a board where lines of both marks are complete. On
  X X X / O O O / - - - the line 3-4-5 has its three cells equal to O and non-empty, yet
  \<^verbatim>\<open>checkWinner\<close> returns X, the mark of the line 0-1-2 it meets first: it does not return
  every mark that some line holds.
\<close>

theorem checkWinner_iff_counterexample:
  "length [MarkX, MarkX, MarkX, MarkO, MarkO, MarkO, Null, Null, Null] = 9
   \<and> (3, 4, 5) \<in> set WINNING_COMBINATIONS
   \<and> line_has [MarkX, MarkX, MarkX, MarkO, MarkO, MarkO, Null, Null, Null] MarkO (3, 4, 5)
   \<and> truthy MarkO
   \<and> checkWinner [MarkX, MarkX, MarkX, MarkO, MarkO, MarkO, Null, Null, Null] = MarkX
   \<and> checkWinner [MarkX, MarkX, MarkX, MarkO, MarkO, MarkO, Null, Null, Null] \<noteq> MarkO"
  by (simp add: checkWinner_def WINNING_COMBINATIONS_def cell_at_def)

text \<open>
  Claim C2, amended. \<^verbatim>\<open>checkWinner\<close> scans the eight lines (three rows, three columns, two
  diagonals) in their declared order. It returns a mark \<open>M\<close> exactly when the first complete
  line holds \<open>M\<close>; a mark it returns is held by one of the eight lines; when the complete
  lines all hold the same mark, it returns \<open>M\<close> exactly when some line holds \<open>M\<close>; and it
  returns \<^verbatim>\<open>null\<close> exactly when no line is complete. It returns nothing but \<^verbatim>\<open>null\<close> or a
  mark. This holds for boards of any length, so for those of nine cells.
\<close>

theorem checkWinner_spec:
  "WINNING_COMBINATIONS =
     map (\<lambda>r. (3 * r, 3 * r + 1, 3 * r + 2)) [0, 1, 2]
     @ map (\<lambda>c. (c, c + 3, c + 6)) [0, 1, 2]
     @ [(0, 4, 8), (2, 4, 6)]
   \<and> (truthy M \<longrightarrow>
        (checkWinner bd = M
         \<longleftrightarrow> (\<exists>line. find (line_complete bd) WINNING_COMBINATIONS = Some line \<and> line_has bd M line)))
   \<and> (truthy M \<longrightarrow> checkWinner bd = M \<longrightarrow> (\<exists>line \<in> set WINNING_COMBINATIONS. line_has bd M line))
   \<and> (truthy M \<longrightarrow>
        (\<forall>line \<in> set WINNING_COMBINATIONS. line_complete bd line \<longrightarrow> line_has bd M line) \<longrightarrow>
        (checkWinner bd = M \<longleftrightarrow> (\<exists>line \<in> set WINNING_COMBINATIONS. line_has bd M line)))
   \<and> (checkWinner bd = Null \<longleftrightarrow> (\<forall>line \<in> set WINNING_COMBINATIONS. \<not> line_complete bd line))
   \<and> (checkWinner bd = Null \<or> truthy (checkWinner bd))"
proof -
  have t: "WINNING_COMBINATIONS =
     map (\<lambda>r. (3 * r, 3 * r + 1, 3 * r + 2)) [0, 1, 2]
     @ map (\<lambda>c. (c, c + 3, c + 6)) [0, 1, 2]
     @ [(0, 4, 8), (2, 4, 6)]"
    by (simp add: WINNING_COMBINATIONS_def)
  have m: "truthy M \<longrightarrow> checkWinner bd = M \<longrightarrow> (\<exists>line \<in> set WINNING_COMBINATIONS. line_has bd M line)"
    using checkWinner_mark_iff [of M bd] find_Some_holds [of "line_complete bd" WINNING_COMBINATIONS]
    by blast
  have r: "checkWinner bd = Null \<or> truthy (checkWinner bd)"
    using checkWinner_range [of bd] by auto
  show ?thesis
    using t m r checkWinner_mark_iff [of M bd] checkWinner_single_mark [of M bd]
      checkWinner_Null_iff [of bd]
    by blast
qed

theorem checkWinner_spec_witness:
  "checkWinner [MarkX, MarkX, MarkX, MarkO, MarkO, MarkO, Null, Null, Null] = MarkX
   \<and> find (line_complete [MarkX, MarkX, MarkX, MarkO, MarkO, MarkO, Null, Null, Null])
        WINNING_COMBINATIONS = Some (0, 1, 2)
   \<and> line_has [MarkX, MarkX, MarkX, MarkO, MarkO, MarkO, Null, Null, Null] MarkO (3, 4, 5)
   \<and> checkWinner [MarkX, MarkO, MarkX, Null, MarkO, Null, Null, MarkO, Null] = MarkO
   \<and> checkWinner [MarkX, MarkO, MarkX, Null, MarkO, Null, Null, Null, Null] = Null"
proof -
  have 1: "find (line_complete [MarkX, MarkX, MarkX, MarkO, MarkO, MarkO, Null, Null, Null])
        WINNING_COMBINATIONS = Some (0, 1, 2)"
    by (simp add: WINNING_COMBINATIONS_def line_complete_def cell_at_def)
  have 2: "line_has [MarkX, MarkX, MarkX, MarkO, MarkO, MarkO, Null, Null, Null] MarkX (0, 1, 2)"
    by (simp add: cell_at_def)
  have 3: "line_has [MarkX, MarkX, MarkX, MarkO, MarkO, MarkO, Null, Null, Null] MarkO (3, 4, 5)"
    by (simp add: cell_at_def)
  have 4: "\<forall>line \<in> set WINNING_COMBINATIONS.
             line_complete [MarkX, MarkO, MarkX, Null, MarkO, Null, Null, MarkO, Null] line
             \<longrightarrow> line_has [MarkX, MarkO, MarkX, Null, MarkO, Null, Null, MarkO, Null] MarkO line"
    by (simp add: WINNING_COMBINATIONS_def line_complete_def cell_at_def)
  have 5: "\<exists>line \<in> set WINNING_COMBINATIONS.
             line_has [MarkX, MarkO, MarkX, Null, MarkO, Null, Null, MarkO, Null] MarkO line"
    by (simp add: WINNING_COMBINATIONS_def cell_at_def)
  have 6: "\<forall>line \<in> set WINNING_COMBINATIONS.
             \<not> line_complete [MarkX, MarkO, MarkX, Null, MarkO, Null, Null, Null, Null] line"
    by (simp add: WINNING_COMBINATIONS_def line_complete_def cell_at_def)
  show ?thesis
    using 1 2 3 4 5 6
      checkWinner_spec [of MarkX "[MarkX, MarkX, MarkX, MarkO, MarkO, MarkO, Null, Null, Null]"]
      checkWinner_spec [of MarkO "[MarkX, MarkO, MarkX, Null, MarkO, Null, Null, MarkO, Null]"]
      checkWinner_spec [of MarkX "[MarkX, MarkO, MarkX, Null, MarkO, Null, Null, Null, Null]"]
    by simp
qed

section \<open>Properties of \<^verbatim>\<open>getComputerMove\<close>\<close>

lemma tryMoves_find: "tryMoves mark bd ms = find (move_wins bd mark) ms"
  by (induction ms) (simp_all add: move_wins_def Let_def)

lemma find_sorted_least:
  "sorted_wrt (<) ms \<Longrightarrow> find P ms = Some m \<Longrightarrow> least_move P ms m"
proof (induction ms)
  case Nil
  then show ?case by simp
next
  case (Cons x xs)
  show ?case
  proof (cases "P x")
    case True
    then have "m = x" using Cons.prems(2) by simp
    moreover have "\<forall>y \<in> set xs. x \<le> y" using Cons.prems(1) by auto
    ultimately show ?thesis using True by (auto simp: least_move_def list_all_iff)
  next
    case False
    then have "find P xs = Some m" using Cons.prems(2) by simp
    moreover have "sorted_wrt (<) xs" using Cons.prems(1) by simp
    ultimately have "least_move P xs m" by (rule Cons.IH [rotated])
    then show ?thesis using False by (auto simp: least_move_def list_all_iff)
  qed
qed

lemma random_index:
  assumes "0 \<le> random" "random < 1" "xs \<noteq> []"
  shows "\<exists>x \<in> set xs. number_at xs \<lfloor>random * real (length xs)\<rfloor> = Some x"
proof -
  let ?n = "length xs"
  have n: "0 < real ?n" using assms(3) by simp
  have "0 \<le> random * real ?n" using assms(1) by simp
  then have lo: "0 \<le> \<lfloor>random * real ?n\<rfloor>" by simp
  have "random * real ?n < 1 * real ?n" using assms(2) n by (simp only: mult_strict_right_mono)
  then have "random * real ?n < of_int (int ?n)" by simp
  then have hi: "\<lfloor>random * real ?n\<rfloor> < int ?n" by (simp only: floor_less_iff)
  from lo hi have "nat \<lfloor>random * real ?n\<rfloor> < ?n" by linarith
  then have mem: "xs ! nat \<lfloor>random * real ?n\<rfloor> \<in> set xs" by (rule nth_mem)
  have "number_at xs \<lfloor>random * real ?n\<rfloor> = Some (xs ! nat \<lfloor>random * real ?n\<rfloor>)"
    unfolding number_at_def using lo hi by simp
  then show ?thesis using mem by blast
qed

lemma Null_available: "Null \<in> set bd \<Longrightarrow> getAvailableMoves bd \<noteq> []"
  by (simp add: getAvailableMoves_empty_iff checkDraw_def list_all_iff)

lemma getComputerMove_cases:
  "getComputerMove random bd =
     (case find (move_wins bd MarkO) (getAvailableMoves bd) of
        Some move \<Rightarrow> Some move
      | None \<Rightarrow>
     (case find (move_wins bd MarkX) (getAvailableMoves bd) of
        Some move \<Rightarrow> Some move
      | None \<Rightarrow>
      if 4 \<in> set (getAvailableMoves bd) then Some 4
      else if filter (\<lambda>corner. corner \<in> set (getAvailableMoves bd)) [0, 2, 6, 8] \<noteq> []
           then number_at (filter (\<lambda>corner. corner \<in> set (getAvailableMoves bd)) [0, 2, 6, 8])
                  \<lfloor>random * real (length (filter (\<lambda>corner. corner \<in> set (getAvailableMoves bd)) [0, 2, 6, 8]))\<rfloor>
           else number_at (getAvailableMoves bd) \<lfloor>random * real (length (getAvailableMoves bd))\<rfloor>))"
  unfolding getComputerMove_def Let_def tryMoves_find by simp

lemma getComputerMove_available:
  assumes "Null \<in> set bd" "0 \<le> random" "random < 1"
  shows "\<exists>m \<in> set (getAvailableMoves bd). getComputerMove random bd = Some m"
proof (cases "find (move_wins bd MarkO) (getAvailableMoves bd)")
  case (Some m)
  then show ?thesis using find_Some_holds [OF Some] by (simp add: getComputerMove_cases)
next
  case None
  note noO = None
  show ?thesis
  proof (cases "find (move_wins bd MarkX) (getAvailableMoves bd)")
    case (Some m)
    then show ?thesis using noO find_Some_holds [OF Some] by (simp add: getComputerMove_cases)
  next
    case None
    note noX = None
    show ?thesis
    proof (cases "4 \<in> set (getAvailableMoves bd)")
      case True
      then show ?thesis using noO noX by (simp add: getComputerMove_cases)
    next
      case False
      note no4 = False
      let ?cs = "filter (\<lambda>corner. corner \<in> set (getAvailableMoves bd)) [0, 2, 6, 8]"
      show ?thesis
      proof (cases "?cs = []")
        case False
        from random_index [OF assms(2,3) False]
        obtain x where x: "x \<in> set ?cs" "number_at ?cs \<lfloor>random * real (length ?cs)\<rfloor> = Some x"
          by blast
        have "getComputerMove random bd = number_at ?cs \<lfloor>random * real (length ?cs)\<rfloor>"
          using noO noX no4 False by (simp only: getComputerMove_cases option.case if_False if_True simp_thms)
        moreover have "x \<in> set (getAvailableMoves bd)" using x(1) unfolding set_filter by blast
        ultimately show ?thesis using x(2) by auto
      next
        case True
        have ne: "getAvailableMoves bd \<noteq> []" using assms(1) by (rule Null_available)
        from random_index [OF assms(2,3) ne]
        obtain x where x: "x \<in> set (getAvailableMoves bd)"
          "number_at (getAvailableMoves bd) \<lfloor>random * real (length (getAvailableMoves bd))\<rfloor> = Some x"
          by blast
        have "getComputerMove random bd
              = number_at (getAvailableMoves bd) \<lfloor>random * real (length (getAvailableMoves bd))\<rfloor>"
          using noO noX no4 True by (simp only: getComputerMove_cases option.case if_False if_True simp_thms)
        then show ?thesis using x by auto
      qed
    qed
  qed
qed


lemma computerMoveEffect_board:
  "\<not> isPlayerTurn s \<Longrightarrow> gameStatus s = Playing \<Longrightarrow>
   board (computerMoveEffect random s)
   = assign_at_number (board s) (getComputerMove random (board s)) MarkO"
  by (simp add: computerMoveEffect_def Let_def)

lemma cell_at_assign:
  assumes "0 \<le> m" "m < int (length bd)"
  shows "cell_at (assign_at bd m v) i = (if i = m then v else cell_at bd i)"
proof (cases "0 \<le> i \<and> i < int (length bd)")
  case True
  then have "nat i = nat m \<longleftrightarrow> i = m" using assms by auto
  then show ?thesis using True assms by (auto simp: cell_at_def assign_at_def nth_list_update)
next
  case False
  then show ?thesis using assms by (auto simp: cell_at_def assign_at_def)
qed

text \<open>
  Claim C10. On a board of nine cells with an empty cell, and for every value in [0,1) of
  the random source, \<^verbatim>\<open>getComputerMove\<close> returns an index that is among the available
  moves: it lies between 0 and 8 and its cell is \<^verbatim>\<open>null\<close>. Writing the computer's mark
  there replaces that one empty cell and changes no other cell, and that is the board the
  computer-move effect stores. (The random value is a real number here; the rounding of
  the floating-point product is not modelled.)
\<close>

theorem getComputerMove_safe:
  assumes "length bd = 9" "Null \<in> set bd" "0 \<le> random" "random < 1"
  shows "\<exists>m. getComputerMove random bd = Some m
           \<and> m \<in> set (getAvailableMoves bd) \<and> 0 \<le> m \<and> m \<le> 8 \<and> cell_at bd m = Null
           \<and> assign_at bd m MarkO = bd[nat m := MarkO]
           \<and> (\<forall>i. i \<noteq> m \<longrightarrow> cell_at (assign_at bd m MarkO) i = cell_at bd i)
           \<and> (\<forall>s. \<not> isPlayerTurn s \<and> gameStatus s = Playing \<and> board s = bd
                \<longrightarrow> board (computerMoveEffect random s) = bd[nat m := MarkO])"
proof -
  from getComputerMove_available [OF assms(2,3,4)]
  obtain m where m: "m \<in> set (getAvailableMoves bd)" "getComputerMove random bd = Some m"
    by blast
  from m(1) have r: "0 \<le> m" "m < int (length bd)" "cell_at bd m = Null"
    by (simp_all add: set_getAvailableMoves)
  have a: "assign_at bd m MarkO = bd[nat m := MarkO]" using r by (simp add: assign_at_def)
  have o: "\<forall>i. i \<noteq> m \<longrightarrow> cell_at (assign_at bd m MarkO) i = cell_at bd i"
    using cell_at_assign [OF r(1,2)] by simp
  have e: "\<forall>s. \<not> isPlayerTurn s \<and> gameStatus s = Playing \<and> board s = bd
                \<longrightarrow> board (computerMoveEffect random s) = bd[nat m := MarkO]"
    using m(2) a by (simp add: computerMoveEffect_board assign_at_number_def)
  from r(2) assms(1) have "m \<le> 8" by simp
  then show ?thesis using m r a o e by blast
qed

theorem getComputerMove_safe_witness:
  "getComputerMove (3 / 4) [MarkX, Null, Null, Null, MarkO, Null, Null, Null, MarkX] = Some 6
   \<and> 6 \<in> set (getAvailableMoves [MarkX, Null, Null, Null, MarkO, Null, Null, Null, MarkX])
   \<and> cell_at [MarkX, Null, Null, Null, MarkO, Null, Null, Null, MarkX] 6 = Null
   \<and> assign_at [MarkX, Null, Null, Null, MarkO, Null, Null, Null, MarkX] 6 MarkO
       = [MarkX, Null, Null, Null, MarkO, Null, MarkO, Null, MarkX]"
  using getComputerMove_safe [of "[MarkX, Null, Null, Null, MarkO, Null, Null, Null, MarkX]" "3 / 4"]
  by (simp add: getComputerMove_def getAvailableMoves_def checkWinner_def WINNING_COMBINATIONS_def
      cell_at_def assign_at_def number_at_def Let_def)

text \<open>
  Claim C3, as stated, fails: on a full board \<^verbatim>\<open>getComputerMove\<close> raises nothing. It
  returns \<^verbatim>\<open>undefined\<close>, the element at position 0 of the empty array of available moves,
  and the effect that called it carries on: here it leaves the board as it is and scores
  a draw.
\<close>

theorem getComputerMove_full_board_counterexample:
  "getAvailableMoves [MarkX, MarkO, MarkX, MarkX, MarkO, MarkO, MarkO, MarkX, MarkX] = []
   \<and> getComputerMove (1 / 2) [MarkX, MarkO, MarkX, MarkX, MarkO, MarkO, MarkO, MarkX, MarkX] = None
   \<and> computerMoveEffect (1 / 2)
        \<lparr>board = [MarkX, MarkO, MarkX, MarkX, MarkO, MarkO, MarkO, MarkX, MarkX],
         isPlayerTurn = False, gameStatus = Playing, winner = None,
         score = \<lparr>player = 0, computer = 0, draws = 0\<rparr>\<rparr>
      = \<lparr>board = [MarkX, MarkO, MarkX, MarkX, MarkO, MarkO, MarkO, MarkX, MarkX],
         isPlayerTurn = False, gameStatus = Draw, winner = None,
         score = \<lparr>player = 0, computer = 0, draws = 1\<rparr>\<rparr>"
  by (simp add: computerMoveEffect_def getComputerMove_def getAvailableMoves_def checkWinner_def
      checkDraw_def WINNING_COMBINATIONS_def cell_at_def assign_at_number_def number_at_def Let_def
      number_plus_one_def round_to_double_def)

text \<open>
  Claim C3, amended. Invoked on a board with no available move, \<^verbatim>\<open>getComputerMove\<close> raises
  no error: for every value of the random source it returns \<^verbatim>\<open>undefined\<close>, which is not an
  index of the board.
\<close>

theorem getComputerMove_no_moves:
  assumes "getAvailableMoves bd = []"
  shows "getComputerMove random bd = None"
  using assms by (simp add: getComputerMove_def number_at_def)

theorem getComputerMove_no_moves_witness:
  "getAvailableMoves [MarkO, MarkX, MarkO, MarkO, MarkX, MarkX, MarkX, MarkO, MarkO] = []
   \<and> getComputerMove (1 / 3) [MarkO, MarkX, MarkO, MarkO, MarkX, MarkX, MarkX, MarkO, MarkO] = None"
proof -
  have e: "getAvailableMoves [MarkO, MarkX, MarkO, MarkO, MarkX, MarkX, MarkX, MarkO, MarkO] = []"
    by (simp add: getAvailableMoves_def)
  from e getComputerMove_no_moves [OF e, of "1 / 3"] show ?thesis by simp
qed

subsection \<open>The priority cascade\<close>

lemma move_wins_iff_completes:
  assumes "checkWinner bd = Null" "0 \<le> m" "m < int (length bd)" "truthy mark"
  shows "move_wins bd mark m \<longleftrightarrow> completes_line bd mark m"
proof -
  let ?bd' = "assign_at bd m mark"
  have c: "cell_at ?bd' i = (if i = m then mark else cell_at bd i)" for i
    using assms(2,3) by (rule cell_at_assign)
  have old: "\<not> line_complete bd line" if "line \<in> set WINNING_COMBINATIONS" for line
    using assms(1) that by (simp add: checkWinner_Null_iff)
  have "line_has ?bd' mark line"
    if mem: "line \<in> set WINNING_COMBINATIONS" and cpl: "line_complete ?bd' line" for line
  proof -
    obtain a b c where l: "line = (a, b, c)" by (cases line) auto
    from old [OF mem] have n: "\<not> line_complete bd (a, b, c)" using l by simp
    show ?thesis
    proof (cases "a = m \<or> b = m \<or> c = m")
      case True
      then show ?thesis using cpl l c by (auto simp: line_complete_def split: if_splits)
    next
      case False
      then have "line_complete bd (a, b, c)" using cpl l c by (simp add: line_complete_def)
      then show ?thesis using n by simp
    qed
  qed
  then have "\<forall>line \<in> set WINNING_COMBINATIONS. line_complete ?bd' line \<longrightarrow> line_has ?bd' mark line"
    by blast
  from checkWinner_single_mark [OF assms(4) this]
  show ?thesis by (simp add: move_wins_def completes_line_def list_ex_iff)
qed

lemma follows_cascade_cong:
  assumes "\<And>m. m \<in> set (getAvailableMoves bd) \<Longrightarrow> wins m = wins' m"
    and "\<And>m. m \<in> set (getAvailableMoves bd) \<Longrightarrow> blocks m = blocks' m"
  shows "follows_cascade wins blocks bd result = follows_cascade wins' blocks' bd result"
proof -
  let ?ms = "getAvailableMoves bd"
  have e1: "list_ex wins ?ms = list_ex wins' ?ms" using assms(1) by (auto simp: list_ex_iff)
  have e2: "list_ex blocks ?ms = list_ex blocks' ?ms" using assms(2) by (auto simp: list_ex_iff)
  have l1: "least_move wins ?ms m = least_move wins' ?ms m" for m
    using assms(1) by (auto simp: least_move_def list_all_iff)
  have l2: "least_move blocks ?ms m = least_move blocks' ?ms m" for m
    using assms(2) by (auto simp: least_move_def list_all_iff)
  show ?thesis
    by (simp only: follows_cascade_def Let_def e1 e2 l1 l2)
qed

lemma center_available:
  "length bd = 9 \<Longrightarrow> 4 \<in> set (getAvailableMoves bd) \<longleftrightarrow> cell_at bd 4 = Null"
  by (simp add: set_getAvailableMoves)

lemma corners_available:
  assumes "length bd = 9"
  shows "set (filter (\<lambda>corner. corner \<in> set (getAvailableMoves bd)) [0, 2, 6, 8])
         = {corner \<in> set [0, 2, 6, 8]. cell_at bd corner = Null}"
  using assms by (auto simp: set_getAvailableMoves)

lemma cascade_code:
  assumes "length bd = 9" "Null \<in> set bd" "0 \<le> random" "random < 1"
  shows "follows_cascade (move_wins bd MarkO) (move_wins bd MarkX) bd (getComputerMove random bd)"
proof -
  let ?ms = "getAvailableMoves bd"
  let ?W = "move_wins bd MarkO"
  let ?B = "move_wins bd MarkX"
  have srt: "sorted_wrt (<) ?ms" by (rule sorted_getAvailableMoves)
  show ?thesis
  proof (cases "find ?W ?ms")
    case (Some m)
    have "list_ex ?W ?ms" using find_Some_holds [OF Some] by (auto simp: list_ex_iff)
    moreover have "least_move ?W ?ms m" using srt Some by (rule find_sorted_least)
    moreover have "getComputerMove random bd = Some m" using Some by (simp add: getComputerMove_cases)
    ultimately show ?thesis by (simp add: follows_cascade_def)
  next
    case None
    note noO = None
    then have nW: "\<not> list_ex ?W ?ms" by (simp add: find_None_none list_ex_iff)
    show ?thesis
    proof (cases "find ?B ?ms")
      case (Some m)
      have "list_ex ?B ?ms" using find_Some_holds [OF Some] by (auto simp: list_ex_iff)
      moreover have "least_move ?B ?ms m" using srt Some by (rule find_sorted_least)
      moreover have "getComputerMove random bd = Some m"
        using noO Some by (simp add: getComputerMove_cases)
      ultimately show ?thesis using nW by (simp add: follows_cascade_def)
    next
      case None
      note noX = None
      then have nB: "\<not> list_ex ?B ?ms" by (simp add: find_None_none list_ex_iff)
      show ?thesis
      proof (cases "4 \<in> set ?ms")
        case True
        then have "cell_at bd 4 = Null" using center_available [OF assms(1)] by simp
        moreover have "getComputerMove random bd = Some 4"
          using noO noX True by (simp add: getComputerMove_cases)
        ultimately show ?thesis using nW nB by (simp add: follows_cascade_def)
      next
        case False
        note no4 = False
        then have n4: "cell_at bd 4 \<noteq> Null" using center_available [OF assms(1)] by simp
        let ?cs = "filter (\<lambda>corner. corner \<in> set ?ms) [0, 2, 6, 8]"
        have cs: "set ?cs = {corner \<in> set [0, 2, 6, 8]. cell_at bd corner = Null}"
          using assms(1) by (rule corners_available)
        show ?thesis
        proof (cases "?cs = []")
          case False
          from random_index [OF assms(3,4) False]
          obtain x where x: "x \<in> set ?cs" "number_at ?cs \<lfloor>random * real (length ?cs)\<rfloor> = Some x"
            by blast
          have "getComputerMove random bd = number_at ?cs \<lfloor>random * real (length ?cs)\<rfloor>"
            using noO noX no4 False
            by (simp only: getComputerMove_cases option.case if_False if_True simp_thms)
          then have g: "getComputerMove random bd = Some x" using x(2) by simp
          from x(1) cs have xc: "x \<in> set [0, 2, 6, 8]" "cell_at bd x = Null" by blast+
          then have "list_ex (\<lambda>corner. cell_at bd corner = Null) [0, 2, 6, 8]"
            unfolding list_ex_iff by blast
          then show ?thesis using nW nB n4 xc g by (simp add: follows_cascade_def)
        next
          case True
          then have "set ?cs = {}" by simp
          then have nc: "\<not> list_ex (\<lambda>corner. cell_at bd corner = Null) [0, 2, 6, 8]"
            unfolding cs list_ex_iff by blast
          have ne: "?ms \<noteq> []" using assms(2) by (rule Null_available)
          from random_index [OF assms(3,4) ne]
          obtain x where x: "x \<in> set ?ms" "number_at ?ms \<lfloor>random * real (length ?ms)\<rfloor> = Some x"
            by blast
          have "getComputerMove random bd = number_at ?ms \<lfloor>random * real (length ?ms)\<rfloor>"
            using noO noX no4 True
            by (simp only: getComputerMove_cases option.case if_False if_True simp_thms)
          then have g: "getComputerMove random bd = Some x" using x(2) by simp
          show ?thesis using nW nB n4 nc x(1) g by (simp add: follows_cascade_def)
        qed
      qed
    qed
  qed
qed

text \<open>
  Claim C1, as stated, fails on a board that already holds a complete line. On the board
  X X X / - - - / O O - the only available move that completes a line for the opponent is
  8, yet \<^verbatim>\<open>getComputerMove\<close> returns 3, which completes no line for the opponent: with the
  row of X in place \<^verbatim>\<open>checkWinner\<close> reports X whatever the opponent adds, so the first
  loop returns nothing and the second returns its first move.
\<close>

theorem getComputerMove_cascade_counterexample:
  "length [MarkX, MarkX, MarkX, Null, Null, Null, MarkO, MarkO, Null] = 9
   \<and> getAvailableMoves [MarkX, MarkX, MarkX, Null, Null, Null, MarkO, MarkO, Null] = [3, 4, 5, 8]
   \<and> completes_line [MarkX, MarkX, MarkX, Null, Null, Null, MarkO, MarkO, Null] MarkO 8
   \<and> \<not> completes_line [MarkX, MarkX, MarkX, Null, Null, Null, MarkO, MarkO, Null] MarkO 3
   \<and> getComputerMove (1 / 2) [MarkX, MarkX, MarkX, Null, Null, Null, MarkO, MarkO, Null] = Some 3
   \<and> \<not> follows_cascade
         (completes_line [MarkX, MarkX, MarkX, Null, Null, Null, MarkO, MarkO, Null] MarkO)
         (completes_line [MarkX, MarkX, MarkX, Null, Null, Null, MarkO, MarkO, Null] MarkX)
         [MarkX, MarkX, MarkX, Null, Null, Null, MarkO, MarkO, Null]
         (getComputerMove (1 / 2) [MarkX, MarkX, MarkX, Null, Null, Null, MarkO, MarkO, Null])"
  by (simp add: follows_cascade_def least_move_def completes_line_def getComputerMove_def
      getAvailableMoves_def checkWinner_def WINNING_COMBINATIONS_def cell_at_def assign_at_def
      number_at_def Let_def)

text \<open>
  Claim C1, amended. On a board of nine cells with an empty cell, and for every value in
  [0,1) of the random source, \<^verbatim>\<open>getComputerMove\<close> follows the cascade with "the move wins for
  a mark" read as the test of the code: \<^verbatim>\<open>checkWinner\<close>, on the board with the move filled
  with the mark, returns the mark. When the board holds no complete line, that test is the
  same as the move completing a line for the mark, and the cascade holds as the claim
  words it.
\<close>

theorem getComputerMove_cascade:
  assumes "length bd = 9" "Null \<in> set bd" "0 \<le> random" "random < 1"
  shows "follows_cascade (move_wins bd MarkO) (move_wins bd MarkX) bd (getComputerMove random bd)
       \<and> (checkWinner bd = Null \<longrightarrow>
            (\<forall>m \<in> set (getAvailableMoves bd).
               (move_wins bd MarkO m \<longleftrightarrow> completes_line bd MarkO m)
               \<and> (move_wins bd MarkX m \<longleftrightarrow> completes_line bd MarkX m))
            \<and> follows_cascade (completes_line bd MarkO) (completes_line bd MarkX) bd
                (getComputerMove random bd))"
proof -
  have code: "follows_cascade (move_wins bd MarkO) (move_wins bd MarkX) bd (getComputerMove random bd)"
    using assms by (rule cascade_code)
  have "(\<forall>m \<in> set (getAvailableMoves bd).
               (move_wins bd MarkO m \<longleftrightarrow> completes_line bd MarkO m)
               \<and> (move_wins bd MarkX m \<longleftrightarrow> completes_line bd MarkX m))
            \<and> follows_cascade (completes_line bd MarkO) (completes_line bd MarkX) bd
                (getComputerMove random bd)"
    if none: "checkWinner bd = Null"
  proof -
    have eq: "move_wins bd mark m \<longleftrightarrow> completes_line bd mark m"
      if "m \<in> set (getAvailableMoves bd)" "truthy mark" for m mark
    proof -
      from that(1) have "0 \<le> m" "m < int (length bd)" by (simp_all add: set_getAvailableMoves)
      with none that(2) show ?thesis by (simp add: move_wins_iff_completes)
    qed
    have "follows_cascade (completes_line bd MarkO) (completes_line bd MarkX) bd
            (getComputerMove random bd)
          = follows_cascade (move_wins bd MarkO) (move_wins bd MarkX) bd (getComputerMove random bd)"
      by (rule follows_cascade_cong) (simp_all add: eq)
    then show ?thesis using code eq by simp
  qed
  then show ?thesis using code by blast
qed

theorem getComputerMove_cascade_witness:
  "getComputerMove (1 / 2) [MarkX, MarkX, Null, Null, MarkO, Null, Null, Null, Null] = Some 2
   \<and> least_move (completes_line [MarkX, MarkX, Null, Null, MarkO, Null, Null, Null, Null] MarkX)
       (getAvailableMoves [MarkX, MarkX, Null, Null, MarkO, Null, Null, Null, Null]) 2
   \<and> \<not> list_ex (completes_line [MarkX, MarkX, Null, Null, MarkO, Null, Null, Null, Null] MarkO)
       (getAvailableMoves [MarkX, MarkX, Null, Null, MarkO, Null, Null, Null, Null])
   \<and> checkWinner [MarkX, MarkX, Null, Null, MarkO, Null, Null, Null, Null] = Null
   \<and> follows_cascade
       (completes_line [MarkX, MarkX, Null, Null, MarkO, Null, Null, Null, Null] MarkO)
       (completes_line [MarkX, MarkX, Null, Null, MarkO, Null, Null, Null, Null] MarkX)
       [MarkX, MarkX, Null, Null, MarkO, Null, Null, Null, Null]
       (getComputerMove (1 / 2) [MarkX, MarkX, Null, Null, MarkO, Null, Null, Null, Null])"
proof -
  have n: "checkWinner [MarkX, MarkX, Null, Null, MarkO, Null, Null, Null, Null] = Null"
    by (simp add: checkWinner_def WINNING_COMBINATIONS_def cell_at_def)
  have g: "getComputerMove (1 / 2) [MarkX, MarkX, Null, Null, MarkO, Null, Null, Null, Null] = Some 2"
    by (simp add: getComputerMove_def getAvailableMoves_def checkWinner_def
        WINNING_COMBINATIONS_def cell_at_def assign_at_def number_at_def Let_def)
  have l: "least_move (completes_line [MarkX, MarkX, Null, Null, MarkO, Null, Null, Null, Null] MarkX)
       (getAvailableMoves [MarkX, MarkX, Null, Null, MarkO, Null, Null, Null, Null]) 2"
    by (simp add: least_move_def completes_line_def getAvailableMoves_def
        WINNING_COMBINATIONS_def cell_at_def assign_at_def)
  have x: "\<not> list_ex (completes_line [MarkX, MarkX, Null, Null, MarkO, Null, Null, Null, Null] MarkO)
       (getAvailableMoves [MarkX, MarkX, Null, Null, MarkO, Null, Null, Null, Null])"
    by (simp add: completes_line_def getAvailableMoves_def
        WINNING_COMBINATIONS_def cell_at_def assign_at_def)
  show ?thesis
    using n g l x
      getComputerMove_cascade [of "[MarkX, MarkX, Null, Null, MarkO, Null, Null, Null, Null]" "1 / 2"]
    by simp
qed

section \<open>Properties of the transitions\<close>

lemma handleCellClick_rejected:
  "\<not> click_accepted index s \<Longrightarrow> handleCellClick index s = s"
  by (auto simp: click_accepted_def handleCellClick_def)

lemma computerMoveEffect_rejected:
  "\<not> timer_accepted s \<Longrightarrow> computerMoveEffect random s = s"
  by (auto simp: timer_accepted_def computerMoveEffect_def)

lemma handleCellClick_accepted:
  assumes "click_accepted index s"
  shows "board (handleCellClick index s) = assign_at (board s) index MarkX"
    and "gameStatus (handleCellClick index s) = outcome (assign_at (board s) index MarkX)"
    and "isPlayerTurn (handleCellClick index s)
         = (outcome (assign_at (board s) index MarkX) \<noteq> Playing)"
    and "winner (handleCellClick index s)
         = (if outcome (assign_at (board s) index MarkX) = Won then Some ''Player'' else winner s)"
    and "score (handleCellClick index s)
         = (case outcome (assign_at (board s) index MarkX) of
              Won \<Rightarrow> (score s)\<lparr>player := number_plus_one (player (score s))\<rparr>
            | Draw \<Rightarrow> (score s)\<lparr>draws := number_plus_one (draws (score s))\<rparr>
            | Playing \<Rightarrow> score s)"
  using assms by (simp_all add: click_accepted_def handleCellClick_def outcome_def Let_def)

lemma computerMoveEffect_accepted:
  assumes "timer_accepted s"
  shows "board (computerMoveEffect random s)
         = assign_at_number (board s) (getComputerMove random (board s)) MarkO"
    and "gameStatus (computerMoveEffect random s)
         = outcome (assign_at_number (board s) (getComputerMove random (board s)) MarkO)"
    and "isPlayerTurn (computerMoveEffect random s)
         = (outcome (assign_at_number (board s) (getComputerMove random (board s)) MarkO) = Playing)"
    and "winner (computerMoveEffect random s)
         = (if outcome (assign_at_number (board s) (getComputerMove random (board s)) MarkO) = Won
            then Some ''Computer'' else winner s)"
    and "score (computerMoveEffect random s)
         = (case outcome (assign_at_number (board s) (getComputerMove random (board s)) MarkO) of
              Won \<Rightarrow> (score s)\<lparr>computer := number_plus_one (computer (score s))\<rparr>
            | Draw \<Rightarrow> (score s)\<lparr>draws := number_plus_one (draws (score s))\<rparr>
            | Playing \<Rightarrow> score s)"
  using assms
  by (simp_all add: timer_accepted_def computerMoveEffect_def outcome_def Let_def)

lemma outcome_cases:
  "(outcome cells = Won \<longleftrightarrow> truthy (checkWinner cells))
   \<and> (outcome cells = Draw \<longleftrightarrow> \<not> truthy (checkWinner cells) \<and> checkDraw cells)
   \<and> (outcome cells = Playing \<longleftrightarrow> \<not> truthy (checkWinner cells) \<and> \<not> checkDraw cells)"
  by (simp add: outcome_def)

text \<open>
  Claim C4. On both paths that place a mark, the click of the player and the reply of the
  computer, the status stored is the outcome of the board stored, with the win check
  before the draw check: it is "won" exactly when \<^verbatim>\<open>checkWinner\<close> returns a mark on that
  board, "draw" exactly when it returns none and the board is full, and "playing"
  otherwise. So a move that fills the last cell and completes a line gives "won".
\<close>

theorem status_is_outcome:
  "(click_accepted index s \<longrightarrow>
      board (handleCellClick index s) = assign_at (board s) index MarkX
      \<and> gameStatus (handleCellClick index s) = outcome (board (handleCellClick index s))
      \<and> (gameStatus (handleCellClick index s) = Won
           \<longleftrightarrow> truthy (checkWinner (board (handleCellClick index s))))
      \<and> (gameStatus (handleCellClick index s) = Draw
           \<longleftrightarrow> \<not> truthy (checkWinner (board (handleCellClick index s)))
               \<and> checkDraw (board (handleCellClick index s)))
      \<and> (gameStatus (handleCellClick index s) = Playing
           \<longleftrightarrow> \<not> truthy (checkWinner (board (handleCellClick index s)))
               \<and> \<not> checkDraw (board (handleCellClick index s))))
   \<and> (timer_accepted s \<longrightarrow>
      board (computerMoveEffect random s)
        = assign_at_number (board s) (getComputerMove random (board s)) MarkO
      \<and> gameStatus (computerMoveEffect random s) = outcome (board (computerMoveEffect random s))
      \<and> (gameStatus (computerMoveEffect random s) = Won
           \<longleftrightarrow> truthy (checkWinner (board (computerMoveEffect random s))))
      \<and> (gameStatus (computerMoveEffect random s) = Draw
           \<longleftrightarrow> \<not> truthy (checkWinner (board (computerMoveEffect random s)))
               \<and> checkDraw (board (computerMoveEffect random s)))
      \<and> (gameStatus (computerMoveEffect random s) = Playing
           \<longleftrightarrow> \<not> truthy (checkWinner (board (computerMoveEffect random s)))
               \<and> \<not> checkDraw (board (computerMoveEffect random s))))"
proof -
  have click: "board (handleCellClick index s) = assign_at (board s) index MarkX
      \<and> gameStatus (handleCellClick index s) = outcome (board (handleCellClick index s))
      \<and> (gameStatus (handleCellClick index s) = Won
           \<longleftrightarrow> truthy (checkWinner (board (handleCellClick index s))))
      \<and> (gameStatus (handleCellClick index s) = Draw
           \<longleftrightarrow> \<not> truthy (checkWinner (board (handleCellClick index s)))
               \<and> checkDraw (board (handleCellClick index s)))
      \<and> (gameStatus (handleCellClick index s) = Playing
           \<longleftrightarrow> \<not> truthy (checkWinner (board (handleCellClick index s)))
               \<and> \<not> checkDraw (board (handleCellClick index s)))"
    if "click_accepted index s"
    by (simp add: handleCellClick_accepted(1,2) [OF that] outcome_cases)
  have timer: "board (computerMoveEffect random s)
        = assign_at_number (board s) (getComputerMove random (board s)) MarkO
      \<and> gameStatus (computerMoveEffect random s) = outcome (board (computerMoveEffect random s))
      \<and> (gameStatus (computerMoveEffect random s) = Won
           \<longleftrightarrow> truthy (checkWinner (board (computerMoveEffect random s))))
      \<and> (gameStatus (computerMoveEffect random s) = Draw
           \<longleftrightarrow> \<not> truthy (checkWinner (board (computerMoveEffect random s)))
               \<and> checkDraw (board (computerMoveEffect random s)))
      \<and> (gameStatus (computerMoveEffect random s) = Playing
           \<longleftrightarrow> \<not> truthy (checkWinner (board (computerMoveEffect random s)))
               \<and> \<not> checkDraw (board (computerMoveEffect random s)))"
    if "timer_accepted s"
    by (simp add: computerMoveEffect_accepted(1,2) [OF that] outcome_cases)
  show ?thesis using click timer by blast
qed

theorem status_is_outcome_witness:
  "click_accepted 8
     \<lparr>board = [MarkX, MarkO, MarkO, MarkO, MarkX, MarkX, MarkX, MarkO, Null], isPlayerTurn = True,
      gameStatus = Playing, winner = None, score = \<lparr>player = 0, computer = 0, draws = 0\<rparr>\<rparr>
   \<and> checkDraw [MarkX, MarkO, MarkO, MarkO, MarkX, MarkX, MarkX, MarkO, MarkX]
   \<and> gameStatus (handleCellClick 8
       \<lparr>board = [MarkX, MarkO, MarkO, MarkO, MarkX, MarkX, MarkX, MarkO, Null], isPlayerTurn = True,
        gameStatus = Playing, winner = None, score = \<lparr>player = 0, computer = 0, draws = 0\<rparr>\<rparr>) = Won
   \<and> timer_accepted
     \<lparr>board = [MarkX, MarkX, MarkO, Null, MarkO, MarkX, Null, MarkX, MarkO], isPlayerTurn = False,
      gameStatus = Playing, winner = None, score = \<lparr>player = 0, computer = 0, draws = 0\<rparr>\<rparr>
   \<and> gameStatus (computerMoveEffect (1 / 2)
       \<lparr>board = [MarkX, MarkX, MarkO, Null, MarkO, MarkX, Null, MarkX, MarkO], isPlayerTurn = False,
        gameStatus = Playing, winner = None, score = \<lparr>player = 0, computer = 0, draws = 0\<rparr>\<rparr>) = Won"
proof -
  let ?s = "\<lparr>board = [MarkX, MarkO, MarkO, MarkO, MarkX, MarkX, MarkX, MarkO, Null], isPlayerTurn = True,
      gameStatus = Playing, winner = None, score = \<lparr>player = 0, computer = 0, draws = 0\<rparr>\<rparr>"
  let ?t = "\<lparr>board = [MarkX, MarkX, MarkO, Null, MarkO, MarkX, Null, MarkX, MarkO], isPlayerTurn = False,
      gameStatus = Playing, winner = None, score = \<lparr>player = 0, computer = 0, draws = 0\<rparr>\<rparr>"
  have a: "click_accepted 8 ?s" by (simp add: click_accepted_def cell_at_def)
  have t: "timer_accepted ?t" by (simp add: timer_accepted_def)
  have d: "checkDraw [MarkX, MarkO, MarkO, MarkO, MarkX, MarkX, MarkX, MarkO, MarkX]"
    by (simp add: checkDraw_def)
  have w: "truthy (checkWinner (assign_at (board ?s) 8 MarkX))"
    by (simp add: checkWinner_def WINNING_COMBINATIONS_def cell_at_def assign_at_def)
  have g: "getComputerMove (1 / 2) (board ?t) = Some 6"
    by (simp add: getComputerMove_def getAvailableMoves_def checkWinner_def
        WINNING_COMBINATIONS_def cell_at_def assign_at_def number_at_def Let_def)
  have v: "truthy (checkWinner (assign_at_number (board ?t) (Some 6) MarkO))"
    by (simp add: checkWinner_def WINNING_COMBINATIONS_def cell_at_def assign_at_def
        assign_at_number_def)
  from a status_is_outcome [of 8 ?s "1 / 2"]
  have "board (handleCellClick 8 ?s) = assign_at (board ?s) 8 MarkX"
    and "gameStatus (handleCellClick 8 ?s) = Won
         \<longleftrightarrow> truthy (checkWinner (board (handleCellClick 8 ?s)))"
    by blast+
  with w have 1: "gameStatus (handleCellClick 8 ?s) = Won" by simp
  from t status_is_outcome [of 8 ?t "1 / 2"]
  have "board (computerMoveEffect (1 / 2) ?t)
          = assign_at_number (board ?t) (getComputerMove (1 / 2) (board ?t)) MarkO"
    and "gameStatus (computerMoveEffect (1 / 2) ?t) = Won
         \<longleftrightarrow> truthy (checkWinner (board (computerMoveEffect (1 / 2) ?t)))"
    by blast+
  with g v have 2: "gameStatus (computerMoveEffect (1 / 2) ?t) = Won" by simp
  from a d 1 t 2 show ?thesis by blast
qed

text \<open>
  Claim C5. A click on an occupied cell, or while the status is not "playing", or while it
  is not the player's turn, leaves the whole state as it was. From a state whose status is
  "won" or "draw", every event but "new game" keeps the status, the board, the turn and the
  winner; and "new game" gives the empty board of nine cells, status "playing" and the
  player's turn.
\<close>

theorem invalid_move_rejected:
  "(truthy (cell_at (board s) index) \<or> gameStatus s \<noteq> Playing \<or> \<not> isPlayerTurn s
      \<longrightarrow> handleCellClick index s = s)
   \<and> (gameStatus s \<noteq> Playing \<and> e \<noteq> NewGame \<longrightarrow>
        gameStatus (step e s) = gameStatus s \<and> board (step e s) = board s
        \<and> isPlayerTurn (step e s) = isPlayerTurn s \<and> winner (step e s) = winner s)
   \<and> (gameStatus s \<noteq> Playing \<and> gameStatus (step e s) \<noteq> gameStatus s \<longrightarrow> e = NewGame)
   \<and> board (step NewGame s) = replicate 9 Null
   \<and> gameStatus (step NewGame s) = Playing
   \<and> isPlayerTurn (step NewGame s)
   \<and> winner (step NewGame s) = None"
proof -
  have 1: "truthy (cell_at (board s) index) \<or> gameStatus s \<noteq> Playing \<or> \<not> isPlayerTurn s
      \<longrightarrow> handleCellClick index s = s"
    by (simp add: handleCellClick_def)
  have 2: "gameStatus (step e s) = gameStatus s \<and> board (step e s) = board s
        \<and> isPlayerTurn (step e s) = isPlayerTurn s \<and> winner (step e s) = winner s"
    if "gameStatus s \<noteq> Playing" "e \<noteq> NewGame"
    using that
    by (cases e) (simp_all add: handleCellClick_def computerMoveEffect_def resetScore_def)
  have 3: "board (step NewGame s) = replicate 9 Null \<and> gameStatus (step NewGame s) = Playing
   \<and> isPlayerTurn (step NewGame s) \<and> winner (step NewGame s) = None"
    by (simp add: resetGame_def)
  show ?thesis using 1 2 3 by blast
qed

theorem invalid_move_rejected_witness:
  "truthy (cell_at (board
      \<lparr>board = [MarkX, MarkX, MarkX, MarkO, MarkO, Null, Null, Null, Null], isPlayerTurn = True,
       gameStatus = Won, winner = Some ''Player'',
       score = \<lparr>player = 1, computer = 0, draws = 0\<rparr>\<rparr>) 0)
   \<and> handleCellClick 5
      \<lparr>board = [MarkX, MarkX, MarkX, MarkO, MarkO, Null, Null, Null, Null], isPlayerTurn = True,
       gameStatus = Won, winner = Some ''Player'',
       score = \<lparr>player = 1, computer = 0, draws = 0\<rparr>\<rparr>
     = \<lparr>board = [MarkX, MarkX, MarkX, MarkO, MarkO, Null, Null, Null, Null], isPlayerTurn = True,
       gameStatus = Won, winner = Some ''Player'',
       score = \<lparr>player = 1, computer = 0, draws = 0\<rparr>\<rparr>
   \<and> gameStatus (step (ComputerTimer (1 / 2))
      \<lparr>board = [MarkX, MarkX, MarkX, MarkO, MarkO, Null, Null, Null, Null], isPlayerTurn = True,
       gameStatus = Won, winner = Some ''Player'',
       score = \<lparr>player = 1, computer = 0, draws = 0\<rparr>\<rparr>) = Won
   \<and> gameStatus (step NewGame
      \<lparr>board = [MarkX, MarkX, MarkX, MarkO, MarkO, Null, Null, Null, Null], isPlayerTurn = True,
       gameStatus = Won, winner = Some ''Player'',
       score = \<lparr>player = 1, computer = 0, draws = 0\<rparr>\<rparr>) = Playing"
  using invalid_move_rejected
    [of "\<lparr>board = [MarkX, MarkX, MarkX, MarkO, MarkO, Null, Null, Null, Null], isPlayerTurn = True,
       gameStatus = Won, winner = Some ''Player'',
       score = \<lparr>player = 1, computer = 0, draws = 0\<rparr>\<rparr>" 5 "ComputerTimer (1 / 2)"]
  by (simp add: cell_at_def)

lemma assign_at_in_range:
  "0 \<le> i \<Longrightarrow> i < int (length bd) \<Longrightarrow> assign_at bd i v = bd[nat i := v]"
  by (simp add: assign_at_def)

subsection \<open>An invariant of the runs of the page\<close>

lemma count_mark_update:
  assumes "k < length bd" "bd ! k = Null" "v \<noteq> Null"
  shows "count_mark mark (bd[k := v]) = count_mark mark bd + (if mark = v then 1 else 0)
         - (if mark = Null then 1 else 0)"
  using assms
proof (induction bd arbitrary: k)
  case Nil
  then show ?case by simp
next
  case (Cons c cs)
  show ?case
  proof (cases k)
    case 0
    then show ?thesis using Cons.prems by (auto simp: count_mark_def)
  next
    case (Suc j)
    then have j: "j < length cs" "cs ! j = Null" using Cons.prems by simp_all
    have pos: "mark = Null \<Longrightarrow> 0 < count_mark mark cs"
      using j by (auto simp: count_mark_def filter_empty_conv in_set_conv_nth)
    from Cons.IH [OF j Cons.prems(3)] pos show ?thesis
      using Suc Cons.prems(3) by (auto simp: count_mark_def)
  qed
qed

lemma turn_invariant_initial: "turn_invariant initialState"
  by (simp add: turn_invariant_def initialState_def outcome_def checkWinner_def checkDraw_def
      WINNING_COMBINATIONS_def cell_at_def count_mark_def list_all_iff)

lemma turn_invariant_resetGame: "turn_invariant (resetGame s)"
  by (simp add: turn_invariant_def resetGame_def outcome_def checkWinner_def checkDraw_def
      WINNING_COMBINATIONS_def cell_at_def count_mark_def list_all_iff)

lemma turn_invariant_resetScore: "turn_invariant s \<Longrightarrow> turn_invariant (resetScore s)"
  by (simp add: turn_invariant_def resetScore_def)

lemma turn_invariant_click:
  assumes inv: "turn_invariant s" and rng: "0 \<le> index" "index < 9"
  shows "turn_invariant (handleCellClick index s)"
proof (cases "click_accepted index s")
  case False
  then show ?thesis using inv by (simp add: handleCellClick_rejected)
next
  case True
  let ?bd = "board s"
  from inv have len: "length ?bd = 9" and nu: "Undefined \<notin> set ?bd"
    and cnt: "count_mark MarkX ?bd = count_mark MarkO ?bd
              + (if isPlayerTurn s = (gameStatus s = Playing) then 0 else 1)"
    by (simp_all add: turn_invariant_def)
  from True have st: "isPlayerTurn s" "gameStatus s = Playing" "\<not> truthy (cell_at ?bd index)"
    by (simp_all add: click_accepted_def)
  have k: "nat index < length ?bd" using rng len by simp
  then have "?bd ! nat index \<in> set ?bd" by (rule nth_mem)
  then have "?bd ! nat index \<noteq> Undefined" using nu by metis
  moreover have "cell_at ?bd index = ?bd ! nat index" using rng len by (simp add: cell_at_def)
  ultimately have null: "?bd ! nat index = Null"
    using st(3) by (cases "?bd ! nat index") simp_all
  have nb: "board (handleCellClick index s) = ?bd[nat index := MarkX]"
    using rng len by (simp add: handleCellClick_accepted(1) [OF True] assign_at_in_range)
  have cx: "count_mark MarkX (?bd[nat index := MarkX]) = count_mark MarkX ?bd + 1"
    using count_mark_update [OF k null, of MarkX MarkX] by simp
  have co: "count_mark MarkO (?bd[nat index := MarkX]) = count_mark MarkO ?bd"
    using count_mark_update [OF k null, of MarkX MarkO] by simp
  have nu': "Undefined \<notin> set (?bd[nat index := MarkX])"
    using nu set_update_subset_insert [of ?bd "nat index" MarkX] by auto
  have gs: "gameStatus (handleCellClick index s) = outcome (?bd[nat index := MarkX])"
    using handleCellClick_accepted(2) [OF True] nb handleCellClick_accepted(1) [OF True] by simp
  have pt: "isPlayerTurn (handleCellClick index s) = (outcome (?bd[nat index := MarkX]) \<noteq> Playing)"
    using handleCellClick_accepted(3) [OF True] nb handleCellClick_accepted(1) [OF True] by simp
  show ?thesis
    unfolding turn_invariant_def nb gs pt
    using len nu' cx co cnt st by simp
qed

lemma turn_invariant_timer:
  assumes inv: "turn_invariant s" and rng: "0 \<le> random" "random < 1"
  shows "turn_invariant (computerMoveEffect random s)"
proof (cases "timer_accepted s")
  case False
  then show ?thesis using inv by (simp add: computerMoveEffect_rejected)
next
  case True
  let ?bd = "board s"
  from inv have len: "length ?bd = 9" and nu: "Undefined \<notin> set ?bd"
    and oc: "gameStatus s = outcome ?bd"
    and cnt: "count_mark MarkX ?bd = count_mark MarkO ?bd
              + (if isPlayerTurn s = (gameStatus s = Playing) then 0 else 1)"
    by (simp_all add: turn_invariant_def)
  from True have st: "\<not> isPlayerTurn s" "gameStatus s = Playing"
    by (simp_all add: timer_accepted_def)
  from st(2) oc have "\<not> checkDraw ?bd" using outcome_cases [of ?bd] by simp
  then have "Null \<in> set ?bd" by (auto simp: checkDraw_def list_all_iff)
  from getComputerMove_available [OF this rng]
  obtain m where m: "m \<in> set (getAvailableMoves ?bd)" "getComputerMove random ?bd = Some m"
    by blast
  from m(1) have mr: "0 \<le> m" "m < int (length ?bd)" "cell_at ?bd m = Null"
    by (simp_all add: set_getAvailableMoves)
  have k: "nat m < length ?bd" using mr by simp
  have null: "?bd ! nat m = Null" using mr by (simp add: cell_at_def)
  have nb: "assign_at_number ?bd (getComputerMove random ?bd) MarkO = ?bd[nat m := MarkO]"
    using m(2) mr by (simp add: assign_at_number_def assign_at_in_range)
  have cx: "count_mark MarkX (?bd[nat m := MarkO]) = count_mark MarkX ?bd"
    using count_mark_update [OF k null, of MarkO MarkX] by simp
  have co: "count_mark MarkO (?bd[nat m := MarkO]) = count_mark MarkO ?bd + 1"
    using count_mark_update [OF k null, of MarkO MarkO] by simp
  have nu': "Undefined \<notin> set (?bd[nat m := MarkO])"
    using nu set_update_subset_insert [of ?bd "nat m" MarkO] by auto
  have b': "board (computerMoveEffect random s) = ?bd[nat m := MarkO]"
    using computerMoveEffect_accepted(1) [OF True] nb by simp
  have gs: "gameStatus (computerMoveEffect random s) = outcome (?bd[nat m := MarkO])"
    using computerMoveEffect_accepted(2) [OF True] nb by simp
  have pt: "isPlayerTurn (computerMoveEffect random s) = (outcome (?bd[nat m := MarkO]) = Playing)"
    using computerMoveEffect_accepted(3) [OF True] nb by simp
  show ?thesis
    unfolding turn_invariant_def b' gs pt
    using len nu' cx co cnt st by simp
qed

lemma turn_invariant_step: "turn_invariant s \<Longrightarrow> valid_event e \<Longrightarrow> turn_invariant (step e s)"
  by (cases e)
    (simp_all add: turn_invariant_click turn_invariant_timer turn_invariant_resetGame
      turn_invariant_resetScore)

lemma turn_invariant_run:
  "turn_invariant s \<Longrightarrow> list_all valid_event es \<Longrightarrow> turn_invariant (run es s)"
  by (induction es arbitrary: s) (simp_all add: turn_invariant_step)

text \<open>
  Claim C6. An accepted move writes the mover's mark and only then evaluates: the board
  stored is the old board with the mark at the chosen cell (for the player the clicked
  cell of the board, for the computer an available cell when the board of nine cells has
  one), the status stored is the outcome of that board, and the turn indicator changes
  exactly when that status is still "playing". A move that ends the game leaves the
  indicator as it was. The player moves only on the player's turn and the computer only on
  its own, and apart from "new game" nothing else changes the indicator, so turns
  alternate: after every run of events of the page from the initial state the board has
  nine cells, the status is the outcome of the board, and the marks of the two sides are
  balanced as alternation requires.
\<close>

theorem move_then_evaluate:
  "(click_accepted index s \<longrightarrow>
      isPlayerTurn s \<and> \<not> truthy (cell_at (board s) index)
      \<and> board (handleCellClick index s) = assign_at (board s) index MarkX
      \<and> (0 \<le> index \<and> index < int (length (board s)) \<longrightarrow>
           board (handleCellClick index s) = (board s)[nat index := MarkX])
      \<and> gameStatus (handleCellClick index s) = outcome (board (handleCellClick index s))
      \<and> (isPlayerTurn (handleCellClick index s) \<noteq> isPlayerTurn s
           \<longleftrightarrow> gameStatus (handleCellClick index s) = Playing))
   \<and> (timer_accepted s \<longrightarrow>
      \<not> isPlayerTurn s
      \<and> board (computerMoveEffect random s)
           = assign_at_number (board s) (getComputerMove random (board s)) MarkO
      \<and> (length (board s) = 9 \<and> Null \<in> set (board s) \<and> 0 \<le> random \<and> random < 1 \<longrightarrow>
           (\<exists>m \<in> set (getAvailableMoves (board s)).
              cell_at (board s) m = Null
              \<and> board (computerMoveEffect random s) = (board s)[nat m := MarkO]))
      \<and> gameStatus (computerMoveEffect random s) = outcome (board (computerMoveEffect random s))
      \<and> (isPlayerTurn (computerMoveEffect random s) \<noteq> isPlayerTurn s
           \<longleftrightarrow> gameStatus (computerMoveEffect random s) = Playing))
   \<and> (\<not> click_accepted index s \<longrightarrow> handleCellClick index s = s)
   \<and> (\<not> timer_accepted s \<longrightarrow> computerMoveEffect random s = s)
   \<and> (isPlayerTurn (step e s) \<noteq> isPlayerTurn s \<longrightarrow>
        e = NewGame \<or> (gameStatus s = Playing \<and> gameStatus (step e s) = Playing))
   \<and> (list_all valid_event es \<longrightarrow> turn_invariant (run es initialState))"
proof -
  have click: "isPlayerTurn s \<and> \<not> truthy (cell_at (board s) index)
      \<and> board (handleCellClick index s) = assign_at (board s) index MarkX
      \<and> (0 \<le> index \<and> index < int (length (board s)) \<longrightarrow>
           board (handleCellClick index s) = (board s)[nat index := MarkX])
      \<and> gameStatus (handleCellClick index s) = outcome (board (handleCellClick index s))
      \<and> (isPlayerTurn (handleCellClick index s) \<noteq> isPlayerTurn s
           \<longleftrightarrow> gameStatus (handleCellClick index s) = Playing)"
    if acc: "click_accepted index s"
  proof -
    from acc have p: "isPlayerTurn s" "\<not> truthy (cell_at (board s) index)"
      by (simp_all add: click_accepted_def)
    show ?thesis
      using p by (simp add: handleCellClick_accepted(1,2,3) [OF acc] assign_at_in_range)
  qed
  have timer: "\<not> isPlayerTurn s
      \<and> board (computerMoveEffect random s)
           = assign_at_number (board s) (getComputerMove random (board s)) MarkO
      \<and> (length (board s) = 9 \<and> Null \<in> set (board s) \<and> 0 \<le> random \<and> random < 1 \<longrightarrow>
           (\<exists>m \<in> set (getAvailableMoves (board s)).
              cell_at (board s) m = Null
              \<and> board (computerMoveEffect random s) = (board s)[nat m := MarkO]))
      \<and> gameStatus (computerMoveEffect random s) = outcome (board (computerMoveEffect random s))
      \<and> (isPlayerTurn (computerMoveEffect random s) \<noteq> isPlayerTurn s
           \<longleftrightarrow> gameStatus (computerMoveEffect random s) = Playing)"
    if acc: "timer_accepted s"
  proof -
    from acc have p: "\<not> isPlayerTurn s" by (simp add: timer_accepted_def)
    have w: "\<exists>m \<in> set (getAvailableMoves (board s)).
              cell_at (board s) m = Null
              \<and> board (computerMoveEffect random s) = (board s)[nat m := MarkO]"
      if h: "Null \<in> set (board s)" "0 \<le> random" "random < 1"
    proof -
      from getComputerMove_available [OF h]
      obtain m where m: "m \<in> set (getAvailableMoves (board s))"
        "getComputerMove random (board s) = Some m" by blast
      from m(1) have r: "0 \<le> m" "m < int (length (board s))" "cell_at (board s) m = Null"
        by (simp_all add: set_getAvailableMoves)
      from r(1,2) have "assign_at (board s) m MarkO = (board s)[nat m := MarkO]"
        by (rule assign_at_in_range)
      then have "board (computerMoveEffect random s) = (board s)[nat m := MarkO]"
        using m(2) by (simp add: computerMoveEffect_accepted(1) [OF acc] assign_at_number_def)
      with m(1) r(3) show ?thesis by blast
    qed
    have rest: "board (computerMoveEffect random s)
           = assign_at_number (board s) (getComputerMove random (board s)) MarkO
      \<and> gameStatus (computerMoveEffect random s) = outcome (board (computerMoveEffect random s))
      \<and> (isPlayerTurn (computerMoveEffect random s) \<noteq> isPlayerTurn s
           \<longleftrightarrow> gameStatus (computerMoveEffect random s) = Playing)"
      using p by (simp add: computerMoveEffect_accepted(1,2,3) [OF acc])
    show ?thesis using p w rest by blast
  qed
  have rej1: "\<not> click_accepted index s \<longrightarrow> handleCellClick index s = s"
    by (simp add: handleCellClick_rejected)
  have rej2: "\<not> timer_accepted s \<longrightarrow> computerMoveEffect random s = s"
    by (simp add: computerMoveEffect_rejected)
  have turn: "e = NewGame \<or> (gameStatus s = Playing \<and> gameStatus (step e s) = Playing)"
    if ch: "isPlayerTurn (step e s) \<noteq> isPlayerTurn s"
  proof (cases e)
    case (CellClick i)
    show ?thesis
    proof (cases "click_accepted i s")
      case True
      from ch CellClick have "isPlayerTurn (handleCellClick i s) \<noteq> isPlayerTurn s" by simp
      moreover have "isPlayerTurn s" "gameStatus s = Playing"
        using True by (simp_all add: click_accepted_def)
      ultimately show ?thesis
        using CellClick by (simp add: handleCellClick_accepted(2,3) [OF True])
    next
      case False
      then show ?thesis using ch CellClick by (simp add: handleCellClick_rejected)
    qed
  next
    case (ComputerTimer r)
    show ?thesis
    proof (cases "timer_accepted s")
      case True
      from ch ComputerTimer have "isPlayerTurn (computerMoveEffect r s) \<noteq> isPlayerTurn s" by simp
      moreover have "\<not> isPlayerTurn s" "gameStatus s = Playing"
        using True by (simp_all add: timer_accepted_def)
      ultimately show ?thesis
        using ComputerTimer by (simp add: computerMoveEffect_accepted(2,3) [OF True])
    next
      case False
      then show ?thesis using ch ComputerTimer by (simp add: computerMoveEffect_rejected)
    qed
  next
    case NewGame
    then show ?thesis by simp
  next
    case ResetScoreButton
    then show ?thesis using ch by (simp add: resetScore_def)
  qed
  have inv: "list_all valid_event es \<longrightarrow> turn_invariant (run es initialState)"
    by (simp add: turn_invariant_run turn_invariant_initial)
  show ?thesis using click timer rej1 rej2 turn inv by blast
qed

theorem move_then_evaluate_witness:
  "click_accepted 4
     \<lparr>board = [MarkX, Null, Null, Null, Null, Null, Null, Null, MarkO], isPlayerTurn = True,
      gameStatus = Playing, winner = None, score = \<lparr>player = 0, computer = 0, draws = 0\<rparr>\<rparr>
   \<and> handleCellClick 4
     \<lparr>board = [MarkX, Null, Null, Null, Null, Null, Null, Null, MarkO], isPlayerTurn = True,
      gameStatus = Playing, winner = None, score = \<lparr>player = 0, computer = 0, draws = 0\<rparr>\<rparr>
     = \<lparr>board = [MarkX, Null, Null, Null, MarkX, Null, Null, Null, MarkO], isPlayerTurn = False,
      gameStatus = Playing, winner = None, score = \<lparr>player = 0, computer = 0, draws = 0\<rparr>\<rparr>
   \<and> timer_accepted
     \<lparr>board = [MarkX, Null, Null, Null, MarkX, Null, Null, Null, MarkO], isPlayerTurn = False,
      gameStatus = Playing, winner = None, score = \<lparr>player = 0, computer = 0, draws = 0\<rparr>\<rparr>
   \<and> computerMoveEffect (1 / 4)
     \<lparr>board = [MarkX, Null, Null, Null, MarkX, Null, Null, Null, MarkO], isPlayerTurn = False,
      gameStatus = Playing, winner = None, score = \<lparr>player = 0, computer = 0, draws = 0\<rparr>\<rparr>
     = \<lparr>board = [MarkX, Null, MarkO, Null, MarkX, Null, Null, Null, MarkO], isPlayerTurn = True,
      gameStatus = Playing, winner = None, score = \<lparr>player = 0, computer = 0, draws = 0\<rparr>\<rparr>
   \<and> list_all valid_event [CellClick 4, ComputerTimer (1 / 4), CellClick 0]
   \<and> turn_invariant (run [CellClick 4, ComputerTimer (1 / 4), CellClick 0] initialState)
   \<and> board (run [CellClick 4, ComputerTimer (1 / 4), CellClick 0] initialState)
       = [MarkX, Null, MarkO, Null, MarkX, Null, Null, Null, Null]
   \<and> \<not> isPlayerTurn (run [CellClick 4, ComputerTimer (1 / 4), CellClick 0] initialState)"
proof -
  let ?s = "\<lparr>board = [MarkX, Null, Null, Null, Null, Null, Null, Null, MarkO], isPlayerTurn = True,
      gameStatus = Playing, winner = None, score = \<lparr>player = 0, computer = 0, draws = 0\<rparr>\<rparr>"
  let ?t = "\<lparr>board = [MarkX, Null, Null, Null, MarkX, Null, Null, Null, MarkO], isPlayerTurn = False,
      gameStatus = Playing, winner = None, score = \<lparr>player = 0, computer = 0, draws = 0\<rparr>\<rparr>"
  have a: "click_accepted 4 ?s" by (simp add: click_accepted_def cell_at_def)
  have t: "timer_accepted ?t" by (simp add: timer_accepted_def)
  have r: "0 \<le> (4::int) \<and> 4 < int (length (board ?s))" by simp
  from a r move_then_evaluate [of 4 ?s "1 / 4" NewGame]
  have b: "board (handleCellClick 4 ?s) = (board ?s)[nat 4 := MarkX]"
    and g: "gameStatus (handleCellClick 4 ?s) = outcome (board (handleCellClick 4 ?s))"
    and p: "isPlayerTurn (handleCellClick 4 ?s) \<noteq> isPlayerTurn ?s
            \<longleftrightarrow> gameStatus (handleCellClick 4 ?s) = Playing"
    by blast+
  have 1: "handleCellClick 4 ?s
     = \<lparr>board = [MarkX, Null, Null, Null, MarkX, Null, Null, Null, MarkO], isPlayerTurn = False,
      gameStatus = Playing, winner = None, score = \<lparr>player = 0, computer = 0, draws = 0\<rparr>\<rparr>"
    by (simp add: handleCellClick_def checkWinner_def checkDraw_def WINNING_COMBINATIONS_def
        cell_at_def assign_at_def Let_def)
  have 2: "computerMoveEffect (1 / 4) ?t
     = \<lparr>board = [MarkX, Null, MarkO, Null, MarkX, Null, Null, Null, MarkO], isPlayerTurn = True,
      gameStatus = Playing, winner = None, score = \<lparr>player = 0, computer = 0, draws = 0\<rparr>\<rparr>"
    by (simp add: computerMoveEffect_def getComputerMove_def getAvailableMoves_def checkWinner_def
        checkDraw_def WINNING_COMBINATIONS_def cell_at_def assign_at_def assign_at_number_def
        number_at_def Let_def)
  let ?es = "[CellClick 4, ComputerTimer (1 / 4), CellClick 0]"
  have re: "list_all valid_event ?es" by simp
  with move_then_evaluate [of 4 ?s "1 / 4" NewGame ?es]
  have ti: "turn_invariant (run ?es initialState)" by blast
  have s1: "handleCellClick 4 initialState
     = \<lparr>board = [Null, Null, Null, Null, MarkX, Null, Null, Null, Null], isPlayerTurn = False,
      gameStatus = Playing, winner = None, score = \<lparr>player = 0, computer = 0, draws = 0\<rparr>\<rparr>"
    by (simp add: initialState_def handleCellClick_def checkWinner_def checkDraw_def
        WINNING_COMBINATIONS_def cell_at_def assign_at_def Let_def eval_nat_numeral)
  have s2: "computerMoveEffect (1 / 4)
      \<lparr>board = [Null, Null, Null, Null, MarkX, Null, Null, Null, Null], isPlayerTurn = False,
      gameStatus = Playing, winner = None, score = \<lparr>player = 0, computer = 0, draws = 0\<rparr>\<rparr>
     = \<lparr>board = [Null, Null, MarkO, Null, MarkX, Null, Null, Null, Null], isPlayerTurn = True,
      gameStatus = Playing, winner = None, score = \<lparr>player = 0, computer = 0, draws = 0\<rparr>\<rparr>"
    by (simp add: computerMoveEffect_def getComputerMove_def getAvailableMoves_def checkWinner_def
        checkDraw_def WINNING_COMBINATIONS_def cell_at_def assign_at_def assign_at_number_def
        number_at_def Let_def)
  have s3: "handleCellClick 0
      \<lparr>board = [Null, Null, MarkO, Null, MarkX, Null, Null, Null, Null], isPlayerTurn = True,
      gameStatus = Playing, winner = None, score = \<lparr>player = 0, computer = 0, draws = 0\<rparr>\<rparr>
     = \<lparr>board = [MarkX, Null, MarkO, Null, MarkX, Null, Null, Null, Null], isPlayerTurn = False,
      gameStatus = Playing, winner = None, score = \<lparr>player = 0, computer = 0, draws = 0\<rparr>\<rparr>"
    by (simp add: handleCellClick_def checkWinner_def checkDraw_def
        WINNING_COMBINATIONS_def cell_at_def assign_at_def Let_def)
  have rb: "board (run ?es initialState) = [MarkX, Null, MarkO, Null, MarkX, Null, Null, Null, Null]"
    and rt: "\<not> isPlayerTurn (run ?es initialState)"
    by (simp_all add: s1 s2 s3)
  from a t 1 2 b g p re ti rb rt show ?thesis by blast
qed

section \<open>The score\<close>

lemma round_to_double_limit: "round_to_double 9007199254740992 = 9007199254740992"
  by code_simp

lemma number_plus_one_exact: "exact_counter n \<Longrightarrow> number_plus_one n = n + 1"
proof -
  assume e: "exact_counter n"
  show ?thesis
  proof (cases "n + 1 = 2 ^ 53")
    case True
    then have "n + 1 = 9007199254740992" by simp
    then show ?thesis by (simp only: number_plus_one_def round_to_double_limit)
  next
    case False
    with e have "\<bar>n + 1\<bar> < 2 ^ 53" unfolding exact_counter_def by linarith
    then show ?thesis by (simp add: number_plus_one_def round_to_double_def Let_def)
  qed
qed

lemma number_plus_one_absorbed: "number_plus_one 9007199254740992 = 9007199254740992"
  by code_simp

text \<open>
  Claim C8, as stated, fails where a counter has reached 2^53: the counters are doubles,
  and there \<^verbatim>\<open>prev.player + 1\<close> gives \<^verbatim>\<open>prev.player\<close> back. The click below wins the game for the
  player and leaves all three counters as they were.
\<close>

theorem score_frame_counterexample:
  "click_accepted 8
     \<lparr>board = [MarkX, MarkO, MarkO, MarkO, MarkX, MarkX, MarkX, MarkO, Null], isPlayerTurn = True,
      gameStatus = Playing, winner = None,
      score = \<lparr>player = 9007199254740992, computer = 1, draws = 3\<rparr>\<rparr>
   \<and> gameStatus (handleCellClick 8
     \<lparr>board = [MarkX, MarkO, MarkO, MarkO, MarkX, MarkX, MarkX, MarkO, Null], isPlayerTurn = True,
      gameStatus = Playing, winner = None,
      score = \<lparr>player = 9007199254740992, computer = 1, draws = 3\<rparr>\<rparr>) = Won
   \<and> score (handleCellClick 8
     \<lparr>board = [MarkX, MarkO, MarkO, MarkO, MarkX, MarkX, MarkX, MarkO, Null], isPlayerTurn = True,
      gameStatus = Playing, winner = None,
      score = \<lparr>player = 9007199254740992, computer = 1, draws = 3\<rparr>\<rparr>)
     = \<lparr>player = 9007199254740992, computer = 1, draws = 3\<rparr>"
  by (simp add: click_accepted_def handleCellClick_def checkWinner_def WINNING_COMBINATIONS_def
      cell_at_def assign_at_def Let_def number_plus_one_absorbed)

text \<open>
  Claim C8, amended. A move that ends the game applies \<^verbatim>\<open>+ 1\<close> to exactly one counter and
  leaves the other two: a win on the player's click to \<^verbatim>\<open>score.player\<close>, a win on the
  computer's reply to \<^verbatim>\<open>score.computer\<close>, a draw on either to \<^verbatim>\<open>score.draws\<close>; and that adds
  exactly one as long as the counter is below 2^53 (and not below -2^53), the range in
  which adding one to a double is exact. No other event but "reset score" changes the
  score. "New game" restores board, turn, status and winner and keeps the score; "reset
  score" sets the three counters to zero and keeps board, turn, status and winner.
\<close>

theorem score_frame:
  "(click_accepted index s \<longrightarrow>
      (gameStatus (handleCellClick index s) = Won \<longrightarrow>
         winner (handleCellClick index s) = Some ''Player''
         \<and> score (handleCellClick index s)
             = (score s)\<lparr>player := number_plus_one (player (score s))\<rparr>
         \<and> (exact_counter (player (score s)) \<longrightarrow>
              score (handleCellClick index s) = (score s)\<lparr>player := player (score s) + 1\<rparr>))
      \<and> (gameStatus (handleCellClick index s) = Draw \<longrightarrow>
         score (handleCellClick index s)
             = (score s)\<lparr>draws := number_plus_one (draws (score s))\<rparr>
         \<and> (exact_counter (draws (score s)) \<longrightarrow>
              score (handleCellClick index s) = (score s)\<lparr>draws := draws (score s) + 1\<rparr>))
      \<and> (gameStatus (handleCellClick index s) = Playing \<longrightarrow>
         score (handleCellClick index s) = score s))
   \<and> (timer_accepted s \<longrightarrow>
      (gameStatus (computerMoveEffect random s) = Won \<longrightarrow>
         winner (computerMoveEffect random s) = Some ''Computer''
         \<and> score (computerMoveEffect random s)
             = (score s)\<lparr>computer := number_plus_one (computer (score s))\<rparr>
         \<and> (exact_counter (computer (score s)) \<longrightarrow>
              score (computerMoveEffect random s)
              = (score s)\<lparr>computer := computer (score s) + 1\<rparr>))
      \<and> (gameStatus (computerMoveEffect random s) = Draw \<longrightarrow>
         score (computerMoveEffect random s)
             = (score s)\<lparr>draws := number_plus_one (draws (score s))\<rparr>
         \<and> (exact_counter (draws (score s)) \<longrightarrow>
              score (computerMoveEffect random s) = (score s)\<lparr>draws := draws (score s) + 1\<rparr>))
      \<and> (gameStatus (computerMoveEffect random s) = Playing \<longrightarrow>
         score (computerMoveEffect random s) = score s))
   \<and> (gameStatus s = Playing \<and> gameStatus (step e s) \<noteq> Playing
        \<and> exact_counter (player (score s)) \<and> exact_counter (computer (score s))
        \<and> exact_counter (draws (score s)) \<longrightarrow>
        score (step e s) = (score s)\<lparr>player := player (score s) + 1\<rparr>
        \<or> score (step e s) = (score s)\<lparr>computer := computer (score s) + 1\<rparr>
        \<or> score (step e s) = (score s)\<lparr>draws := draws (score s) + 1\<rparr>)
   \<and> (e \<noteq> ResetScoreButton \<and> (gameStatus s \<noteq> Playing \<or> gameStatus (step e s) = Playing)
        \<longrightarrow> score (step e s) = score s)
   \<and> resetGame s = \<lparr>board = replicate 9 Null, isPlayerTurn = True, gameStatus = Playing,
                     winner = None, score = score s\<rparr>
   \<and> resetScore s = \<lparr>board = board s, isPlayerTurn = isPlayerTurn s, gameStatus = gameStatus s,
                      winner = winner s, score = \<lparr>player = 0, computer = 0, draws = 0\<rparr>\<rparr>"
proof -
  have click: "(gameStatus (handleCellClick index s) = Won \<longrightarrow>
         winner (handleCellClick index s) = Some ''Player''
         \<and> score (handleCellClick index s)
             = (score s)\<lparr>player := number_plus_one (player (score s))\<rparr>
         \<and> (exact_counter (player (score s)) \<longrightarrow>
              score (handleCellClick index s) = (score s)\<lparr>player := player (score s) + 1\<rparr>))
      \<and> (gameStatus (handleCellClick index s) = Draw \<longrightarrow>
         score (handleCellClick index s)
             = (score s)\<lparr>draws := number_plus_one (draws (score s))\<rparr>
         \<and> (exact_counter (draws (score s)) \<longrightarrow>
              score (handleCellClick index s) = (score s)\<lparr>draws := draws (score s) + 1\<rparr>))
      \<and> (gameStatus (handleCellClick index s) = Playing \<longrightarrow>
         score (handleCellClick index s) = score s)" if acc: "click_accepted index s" for index
    by (simp add: handleCellClick_accepted(2,4,5) [OF acc] number_plus_one_exact)
  have timer: "(gameStatus (computerMoveEffect random s) = Won \<longrightarrow>
         winner (computerMoveEffect random s) = Some ''Computer''
         \<and> score (computerMoveEffect random s)
             = (score s)\<lparr>computer := number_plus_one (computer (score s))\<rparr>
         \<and> (exact_counter (computer (score s)) \<longrightarrow>
              score (computerMoveEffect random s)
              = (score s)\<lparr>computer := computer (score s) + 1\<rparr>))
      \<and> (gameStatus (computerMoveEffect random s) = Draw \<longrightarrow>
         score (computerMoveEffect random s)
             = (score s)\<lparr>draws := number_plus_one (draws (score s))\<rparr>
         \<and> (exact_counter (draws (score s)) \<longrightarrow>
              score (computerMoveEffect random s) = (score s)\<lparr>draws := draws (score s) + 1\<rparr>))
      \<and> (gameStatus (computerMoveEffect random s) = Playing \<longrightarrow>
         score (computerMoveEffect random s) = score s)" if acc: "timer_accepted s" for random
    by (simp add: computerMoveEffect_accepted(2,4,5) [OF acc] number_plus_one_exact)
  have ending: "score (step e s) = (score s)\<lparr>player := player (score s) + 1\<rparr>
        \<or> score (step e s) = (score s)\<lparr>computer := computer (score s) + 1\<rparr>
        \<or> score (step e s) = (score s)\<lparr>draws := draws (score s) + 1\<rparr>"
    if h: "gameStatus s = Playing" "gameStatus (step e s) \<noteq> Playing"
      and x: "exact_counter (player (score s))" "exact_counter (computer (score s))"
        "exact_counter (draws (score s))"
  proof (cases e)
    case (CellClick i)
    have "click_accepted i s"
    proof (rule ccontr)
      assume "\<not> click_accepted i s"
      then have "handleCellClick i s = s" by (rule handleCellClick_rejected)
      with h CellClick show False by simp
    qed
    from click [OF this] h(2) x CellClick show ?thesis
      by (cases "gameStatus (handleCellClick i s)") (simp_all add: number_plus_one_exact)
  next
    case (ComputerTimer r)
    have "timer_accepted s"
    proof (rule ccontr)
      assume "\<not> timer_accepted s"
      then have "computerMoveEffect r s = s" by (rule computerMoveEffect_rejected)
      with h ComputerTimer show False by simp
    qed
    from timer [OF this, of r] h(2) x ComputerTimer show ?thesis
      by (cases "gameStatus (computerMoveEffect r s)") (simp_all add: number_plus_one_exact)
  next
    case NewGame
    then show ?thesis using h by (simp add: resetGame_def)
  next
    case ResetScoreButton
    then show ?thesis using h by (simp add: resetScore_def)
  qed
  have keep: "score (step e s) = score s"
    if h: "e \<noteq> ResetScoreButton" "gameStatus s \<noteq> Playing \<or> gameStatus (step e s) = Playing"
  proof (cases e)
    case (CellClick i)
    show ?thesis
    proof (cases "click_accepted i s")
      case True
      then have "gameStatus s = Playing" by (simp add: click_accepted_def)
      with h(2) CellClick have "gameStatus (handleCellClick i s) = Playing" by simp
      with click [OF True] CellClick show ?thesis by simp
    next
      case False
      then show ?thesis using CellClick by (simp add: handleCellClick_rejected)
    qed
  next
    case (ComputerTimer r)
    show ?thesis
    proof (cases "timer_accepted s")
      case True
      then have "gameStatus s = Playing" by (simp add: timer_accepted_def)
      with h(2) ComputerTimer have "gameStatus (computerMoveEffect r s) = Playing" by simp
      with timer [OF True, of r] ComputerTimer show ?thesis by simp
    next
      case False
      then show ?thesis using ComputerTimer by (simp add: computerMoveEffect_rejected)
    qed
  next
    case NewGame
    then show ?thesis by (simp add: resetGame_def)
  next
    case ResetScoreButton
    then show ?thesis using h(1) by simp
  qed
  have rg: "resetGame s = \<lparr>board = replicate 9 Null, isPlayerTurn = True, gameStatus = Playing,
                     winner = None, score = score s\<rparr>"
    by (simp add: resetGame_def)
  have rs: "resetScore s = \<lparr>board = board s, isPlayerTurn = isPlayerTurn s,
      gameStatus = gameStatus s, winner = winner s, score = \<lparr>player = 0, computer = 0, draws = 0\<rparr>\<rparr>"
    by (simp add: resetScore_def)
  show ?thesis using click [of index] timer [of random] ending keep rg rs by blast
qed

theorem score_frame_witness:
  "click_accepted 8
     \<lparr>board = [MarkX, MarkO, MarkO, MarkO, MarkX, MarkX, MarkX, MarkO, Null], isPlayerTurn = True,
      gameStatus = Playing, winner = None, score = \<lparr>player = 2, computer = 1, draws = 3\<rparr>\<rparr>
   \<and> exact_counter 2
   \<and> gameStatus (handleCellClick 8
     \<lparr>board = [MarkX, MarkO, MarkO, MarkO, MarkX, MarkX, MarkX, MarkO, Null], isPlayerTurn = True,
      gameStatus = Playing, winner = None, score = \<lparr>player = 2, computer = 1, draws = 3\<rparr>\<rparr>) = Won
   \<and> score (handleCellClick 8
     \<lparr>board = [MarkX, MarkO, MarkO, MarkO, MarkX, MarkX, MarkX, MarkO, Null], isPlayerTurn = True,
      gameStatus = Playing, winner = None, score = \<lparr>player = 2, computer = 1, draws = 3\<rparr>\<rparr>)
     = \<lparr>player = 3, computer = 1, draws = 3\<rparr>
   \<and> score (resetGame
     \<lparr>board = [MarkX, MarkO, MarkO, MarkO, MarkX, MarkX, MarkX, MarkO, Null], isPlayerTurn = True,
      gameStatus = Playing, winner = None, score = \<lparr>player = 2, computer = 1, draws = 3\<rparr>\<rparr>)
     = \<lparr>player = 2, computer = 1, draws = 3\<rparr>
   \<and> score (resetScore
     \<lparr>board = [MarkX, MarkO, MarkO, MarkO, MarkX, MarkX, MarkX, MarkO, Null], isPlayerTurn = True,
      gameStatus = Playing, winner = None, score = \<lparr>player = 2, computer = 1, draws = 3\<rparr>\<rparr>)
     = \<lparr>player = 0, computer = 0, draws = 0\<rparr>"
proof -
  let ?s = "\<lparr>board = [MarkX, MarkO, MarkO, MarkO, MarkX, MarkX, MarkX, MarkO, Null], isPlayerTurn = True,
      gameStatus = Playing, winner = None, score = \<lparr>player = 2, computer = 1, draws = 3\<rparr>\<rparr>"
  have a: "click_accepted 8 ?s" by (simp add: click_accepted_def cell_at_def)
  have x: "exact_counter 2" by (simp add: exact_counter_def)
  then have x': "exact_counter (player (score ?s))" by simp
  have w: "gameStatus (handleCellClick 8 ?s) = Won"
    by (simp add: handleCellClick_def checkWinner_def WINNING_COMBINATIONS_def cell_at_def
        assign_at_def Let_def)
  from a w x' score_frame [of 8 ?s "1 / 2" "CellClick 8"]
  have sc: "score (handleCellClick 8 ?s) = (score ?s)\<lparr>player := player (score ?s) + 1\<rparr>"
    and rg: "resetGame ?s = \<lparr>board = replicate 9 Null, isPlayerTurn = True, gameStatus = Playing,
                     winner = None, score = score ?s\<rparr>"
    and rs: "resetScore ?s = \<lparr>board = board ?s, isPlayerTurn = isPlayerTurn ?s,
      gameStatus = gameStatus ?s, winner = winner ?s, score = \<lparr>player = 0, computer = 0, draws = 0\<rparr>\<rparr>"
    by blast+
  have 1: "score (handleCellClick 8 ?s) = \<lparr>player = 3, computer = 1, draws = 3\<rparr>"
    by (simp add: sc)
  have 2: "score (resetGame ?s) = \<lparr>player = 2, computer = 1, draws = 3\<rparr>"
    by (simp add: rg)
  have 3: "score (resetScore ?s) = \<lparr>player = 0, computer = 0, draws = 0\<rparr>"
    by (simp add: rs)
  from a x w 1 2 3 show ?thesis by blast
qed

section \<open>Purity of the three functions\<close>

lemma cells_of_at: "p < length store \<Longrightarrow> store ! p = Cells cells \<Longrightarrow> cells_of store p = cells"
  by (simp add: cells_of_def)

lemma checkWinner_store_loop_eq:
  "checkWinner_store_loop ls p store = (checkWinner_loop ls (cells_of store p), store)"
  by (induction ls) (auto simp: read_cell_def)

lemma checkWinner_store_eq:
  "checkWinner_store p store = (checkWinner (cells_of store p), store)"
  by (simp add: checkWinner_store_def checkWinner_def checkWinner_store_loop_eq)

lemma checkDraw_store_eq: "checkDraw_store p store = (checkDraw (cells_of store p), store)"
  by (simp add: checkDraw_store_def checkDraw_def)

lemma getAvailableMoves_store_eq:
  "getAvailableMoves_store p store =
     (Suc (length store),
      store @ [Numbers (map (\<lambda>(index, cell). if cell = Null then int index else - 1)
                         (enumerate 0 (cells_of store p))),
               Numbers (getAvailableMoves (cells_of store p))])"
proof -
  let ?m = "map (\<lambda>(index, cell). if cell = Null then int index else - 1)
              (enumerate 0 (cells_of store p))"
  have "numbers_of (store @ [Numbers ?m]) (length store) = ?m"
    by (simp add: numbers_of_def)
  then show ?thesis
    by (simp add: getAvailableMoves_store_def allocate_def getAvailableMoves_def)
qed

text \<open>
  Claim C9. Given the address of a board in a store, \<^verbatim>\<open>checkWinner\<close> and \<^verbatim>\<open>checkDraw\<close>
  return the store as they found it and \<^verbatim>\<open>getAvailableMoves\<close> only appends its two new
  arrays, so the board, like every array that was there, is not modified. The results
  depend on the cells of the board alone: calls on the same board value, in whatever
  store and however often repeated, return the same winner, the same draw flag and an
  array of the same available moves.
\<close>

theorem engine_functions_pure:
  assumes "p < length store" "store ! p = Cells cells"
    and "p' < length store'" "store' ! p' = Cells cells"
  shows "snd (checkWinner_store p store) = store
       \<and> snd (checkDraw_store p store) = store
       \<and> take (length store) (snd (getAvailableMoves_store p store)) = store
       \<and> cells_of (snd (getAvailableMoves_store p store)) p = cells
       \<and> fst (checkWinner_store p store) = checkWinner cells
       \<and> fst (checkDraw_store p store) = checkDraw cells
       \<and> numbers_of (snd (getAvailableMoves_store p store)) (fst (getAvailableMoves_store p store))
           = getAvailableMoves cells
       \<and> fst (checkWinner_store p' store') = fst (checkWinner_store p store)
       \<and> fst (checkDraw_store p' store') = fst (checkDraw_store p store)
       \<and> numbers_of (snd (getAvailableMoves_store p' store')) (fst (getAvailableMoves_store p' store'))
           = numbers_of (snd (getAvailableMoves_store p store)) (fst (getAvailableMoves_store p store))
       \<and> fst (checkWinner_store p (snd (checkWinner_store p store))) = fst (checkWinner_store p store)
       \<and> fst (checkDraw_store p (snd (checkDraw_store p store))) = fst (checkDraw_store p store)
       \<and> numbers_of (snd (getAvailableMoves_store p (snd (getAvailableMoves_store p store))))
            (fst (getAvailableMoves_store p (snd (getAvailableMoves_store p store))))
           = numbers_of (snd (getAvailableMoves_store p store)) (fst (getAvailableMoves_store p store))"
proof -
  have c: "cells_of store p = cells" using assms(1,2) by (rule cells_of_at)
  have c': "cells_of store' p' = cells" using assms(3,4) by (rule cells_of_at)
  have n: "numbers_of (snd (getAvailableMoves_store q st)) (fst (getAvailableMoves_store q st))
           = getAvailableMoves (cells_of st q)" for q st
    by (simp add: getAvailableMoves_store_eq numbers_of_def nth_append)
  have k: "cells_of (snd (getAvailableMoves_store p store)) p = cells"
    using assms(1,2) by (simp add: getAvailableMoves_store_eq cells_of_def nth_append)
  have t: "take (length store) (snd (getAvailableMoves_store p store)) = store"
    by (simp add: getAvailableMoves_store_eq)
  show ?thesis
    by (simp add: checkWinner_store_eq checkDraw_store_eq n k t c c')
qed

theorem engine_functions_pure_witness:
  "snd (checkWinner_store 0 [Cells [MarkX, MarkX, MarkX, Null, MarkO, MarkO, Null, Null, Null]])
     = [Cells [MarkX, MarkX, MarkX, Null, MarkO, MarkO, Null, Null, Null]]
   \<and> fst (checkWinner_store 0 [Cells [MarkX, MarkX, MarkX, Null, MarkO, MarkO, Null, Null, Null]])
     = MarkX
   \<and> fst (checkWinner_store 1
        [Numbers [7], Cells [MarkX, MarkX, MarkX, Null, MarkO, MarkO, Null, Null, Null]])
     = MarkX
   \<and> getAvailableMoves_store 0 [Cells [MarkX, MarkX, MarkX, Null, MarkO, MarkO, Null, Null, Null]]
     = (2, [Cells [MarkX, MarkX, MarkX, Null, MarkO, MarkO, Null, Null, Null],
            Numbers [- 1, - 1, - 1, 3, - 1, - 1, 6, 7, 8], Numbers [3, 6, 7, 8]])"
proof -
  let ?b = "[MarkX, MarkX, MarkX, Null, MarkO, MarkO, Null, Null, Null]"
  have w: "checkWinner ?b = MarkX"
    by (simp add: checkWinner_def WINNING_COMBINATIONS_def cell_at_def)
  have g: "getAvailableMoves_store 0 [Cells ?b]
     = (2, [Cells ?b, Numbers [- 1, - 1, - 1, 3, - 1, - 1, 6, 7, 8], Numbers [3, 6, 7, 8]])"
    by code_simp
  from engine_functions_pure [of 0 "[Cells ?b]" ?b 1 "[Numbers [7], Cells ?b]"] w g
  show ?thesis by simp
qed

end
